theory Spec2Isabelle
  imports Main
begin

section \<open>The event bus (class EventBus)\<close>

text \<open>
  The bus is modelled with explicit state. Arrays and Sets of listeners are JavaScript
  objects: \<open>on\<close> writes into the array (or Set) that is registered at that moment, while
  \<open>off\<close> and the removal of one-time listeners build a new array with \<open>filter\<close> and
  register that one instead. An emission that is suspended at an \<open>await\<close> holds a reference
  to the array it iterates, so the model keeps the arrays in a store indexed by addresses,
  and the Sets in another one; \<open>next_addr\<close> and \<open>next_set\<close> are the next free addresses.

  Values that the bus only passes through (event data, results, thrown errors) are natural
  numbers. Console output, the debug flag and the timing of slow events are left out.
\<close>

subsection \<open>Values\<close>

datatype jsval = JStr string | JNum int | JNull | JUndefined

text \<open>What calling a listener's callback leads to, once its promise has settled.\<close>

datatype outcome = Returns nat | Throws nat

datatype payload =
    Data nat
  | ListenerErrors jsval "(nat \<times> nat) list" nat
  | CriticalError jsval nat
  | ModuleRegistered string "string option"

record config =
  once :: bool
  priority :: int
  owner_module :: string
  lid :: nat

record listener =
  callback :: nat
  config :: config

record wlistener = listener +
  pattern :: string

record options =
  opt_once :: bool
  opt_priority :: int
  opt_module :: "string option"

record event =
  ev_type :: jsval
  ev_data :: payload
  ev_id :: nat
  ev_source :: string

text \<open>
  The host: what JavaScript itself supplies. \<open>regexp_test src v\<close> is
  \<open>new RegExp(src).test(v)\<close>, with \<open>None\<close> when that throws (a pattern that does not
  compile); \<open>call f ev\<close> is the outcome of the callback \<open>f\<close> on the event \<open>ev\<close>.
\<close>

record host =
  regexp_test :: "string \<Rightarrow> jsval \<Rightarrow> bool option"
  call :: "nat \<Rightarrow> event \<Rightarrow> outcome"

subsection \<open>State\<close>

datatype phase = Exact | Wild

text \<open>
  The local variables of an activation of \<open>emit\<close>: the event, the array \<open>listeners\<close>
  (\<open>None\<close> is the fresh empty array of \<open>|| []\<close>), the positions of the two iterators,
  \<open>listenersToRemove\<close>, \<open>results\<close>, \<open>errors\<close> (listener id and thrown value), and the Set
  that the second loop iterates. The bus keeps, under the event's id, every activation that
  is suspended at one of the two \<open>await this.executeListener(...)\<close>, with the listener
  that was called and the outcome its promise settles with; \<open>calls\<close> lists every call of a
  callback as (event id, listener id), \<open>settled\<close> holds what the promise of each finished
  \<open>emit\<close> settled with, and \<open>timers\<close> the diagnostics handed to \<open>setTimeout\<close>.
\<close>

record frame =
  f_event :: event
  f_listeners :: "nat option"
  f_index :: nat
  f_phase :: phase
  f_toRemove :: "listener list"
  f_results :: "nat list"
  f_errors :: "(nat \<times> nat) list"
  f_wset :: nat
  f_windex :: nat

datatype settlement = Resolved "nat list" | Rejected

record bus =
  events :: "string \<rightharpoonup> nat"
  wildcardListeners :: nat
  arrays :: "nat \<Rightarrow> listener list"
  sets :: "nat \<Rightarrow> wlistener list"
  next_addr :: nat
  next_set :: nat
  eventHistory :: "event list"
  totalEvents :: nat
  totalListeners :: nat
  next_listener :: nat
  next_event :: nat
  suspended :: "nat \<rightharpoonup> frame \<times> listener \<times> outcome"
  settled :: "nat \<rightharpoonup> settlement"
  calls :: "(nat \<times> nat) list"
  timers :: "payload list"

definition maxHistorySize :: nat where
  "maxHistorySize = 100"

text \<open>
  The constructor. Address 0 of the store of Sets holds the first, empty, Set of wildcard
  listeners.
\<close>

definition new_bus :: bus where
  "new_bus = \<lparr>events = Map.empty, wildcardListeners = 0, arrays = (\<lambda>_. []),
     sets = (\<lambda>_. []), next_addr = 0, next_set = 1, eventHistory = [], totalEvents = 0,
     totalListeners = 0, next_listener = 0, next_event = 0, suspended = Map.empty,
     settled = Map.empty, calls = [], timers = []\<rparr>"

subsection \<open>on\<close>

fun findIndex :: "('a \<Rightarrow> bool) \<Rightarrow> 'a list \<Rightarrow> nat option" where
  "findIndex P [] = None"
| "findIndex P (x # xs) =
     (if P x then Some 0 else map_option Suc (findIndex P xs))"

text \<open>Lines 88 to 93: insert before the first listener of strictly lower priority.\<close>

definition insert_listener :: "listener \<Rightarrow> listener list \<Rightarrow> listener list" where
  "insert_listener l ls =
     (case findIndex (\<lambda>x. priority (config x) < priority (config l)) ls of
        None \<Rightarrow> ls @ [l]
      | Some i \<Rightarrow> take i ls @ l # drop i ls)"

text \<open>
  \<open>x || 'unknown'\<close> for a string or \<open>undefined\<close> (lines 67 and 166): the empty string is falsy.
\<close>

definition or_unknown :: "string option \<Rightarrow> string" where
  "or_unknown x = (case x of None \<Rightarrow> ''unknown'' | Some s \<Rightarrow> if s = [] then ''unknown'' else s)"

definition make_config :: "bus \<Rightarrow> options \<Rightarrow> config" where
  "make_config b opts =
     \<lparr>once = opt_once opts, priority = opt_priority opts,
      owner_module = or_unknown (opt_module opts),
      lid = next_listener b\<rparr>"

text \<open>
  The bucket of an event type, created empty when the type has none (lines 80 to 82).
\<close>

definition bucket_for :: "bus \<Rightarrow> string \<Rightarrow> bus \<times> nat" where
  "bucket_for b t =
     (case events b t of
        Some a \<Rightarrow> (b, a)
      | None \<Rightarrow>
          (b\<lparr>events := (events b)(t \<mapsto> next_addr b),
             arrays := (arrays b)(next_addr b := []),
             next_addr := Suc (next_addr b)\<rparr>, next_addr b))"

text \<open>
  \<open>on\<close> for a string event type and a function callback. The listener's id, a string
  made from the clock and a random number in the source, is the number of listeners
  registered before it: it stands for the identity of the listener object and gives the
  registration order.
\<close>

definition on_str :: "bus \<Rightarrow> string \<Rightarrow> nat \<Rightarrow> options \<Rightarrow> bus" where
  "on_str b t f opts =
     (let cfg = make_config b opts;
          b1 = b\<lparr>next_listener := Suc (next_listener b)\<rparr>;
          b2 = (if CHR ''*'' \<in> set t then
                  b1\<lparr>sets := (sets b1)(wildcardListeners b1 :=
                        sets b1 (wildcardListeners b1)
                          @ [\<lparr>callback = f, config = cfg, pattern = t\<rparr>])\<rparr>
                else
                  (let (b', a) = bucket_for b1 t
                   in b'\<lparr>arrays := (arrays b')(a :=
                          insert_listener \<lparr>callback = f, config = cfg\<rparr> (arrays b' a))\<rparr>))
      in b2\<lparr>totalListeners := Suc (totalListeners b2)\<rparr>)"

datatype handler = Fn nat | NotFn



subsection \<open>off\<close>

definition off :: "bus \<Rightarrow> string \<Rightarrow> nat \<Rightarrow> bus" where
  "off b t f =
     (let b1 =
        (if CHR ''*'' \<in> set t then
           b\<lparr>sets := (sets b)(next_set b :=
                 filter (\<lambda>l. \<not> (pattern l = t \<and> callback l = f))
                   (sets b (wildcardListeners b))),
             wildcardListeners := next_set b,
             next_set := Suc (next_set b)\<rparr>
         else
           (case events b t of
              None \<Rightarrow> b
            | Some a \<Rightarrow>
                (let filteredListeners = filter (\<lambda>l. callback l \<noteq> f) (arrays b a)
                 in if length filteredListeners = 0
                    then b\<lparr>events := (events b)(t := None)\<rparr>
                    else b\<lparr>events := (events b)(t \<mapsto> next_addr b),
                           arrays := (arrays b)(next_addr b := filteredListeners),
                           next_addr := Suc (next_addr b)\<rparr>)))
      in b1\<lparr>totalListeners := totalListeners b1 - 1\<rparr>)"

text \<open>The listeners registered for an event type, in the order of the array.\<close>

definition bucket :: "bus \<Rightarrow> string \<Rightarrow> listener list option" where
  "bucket b t = map_option (arrays b) (events b t)"

subsection \<open>History\<close>

text \<open>Lines 170 to 173: \<open>push\<close>, then one \<open>shift\<close> when the length exceeds the maximum.\<close>

definition add_to_history :: "event \<Rightarrow> event list \<Rightarrow> event list" where
  "add_to_history e h =
     (let h' = h @ [e] in if length h' > maxHistorySize then tl h' else h')"

text \<open>
  \<open>Array.prototype.slice(start)\<close> for an integer \<open>start\<close>: a negative start counts from
  the end, and is clamped to the beginning.
\<close>

definition slice_from :: "int \<Rightarrow> 'a list \<Rightarrow> 'a list" where
  "slice_from start xs =
     (if start < 0 then drop (nat (int (length xs) + start)) xs
      else drop (nat start) xs)"

text \<open>\<open>getHistory(limit)\<close> is \<open>this.eventHistory.slice(-limit)\<close>.\<close>

definition getHistory :: "bus \<Rightarrow> int \<Rightarrow> event list" where
  "getHistory b limit = slice_from (- limit) (eventHistory b)"

subsection \<open>emit\<close>

datatype step_result = Suspended | Finished frame | Failed frame

datatype scan = Deliver nat wlistener | Exhausted | Thrown

text \<open>Lines 317 to 322.\<close>

definition matchesWildcard :: "host \<Rightarrow> jsval \<Rightarrow> string \<Rightarrow> bool option" where
  "matchesWildcard h t p =
     regexp_test h
       (''^'' @ concat (map (\<lambda>c. if c = CHR ''*'' then ''.*'' else [c]) p) @ ''$'') t"

text \<open>
  Lines 295 to 311. Every callback in the bus went through the check of \<open>on\<close>, so it is a
  function; the promise of \<open>executeListener\<close> settles with the outcome of the call.
\<close>

definition executeListener :: "host \<Rightarrow> listener \<Rightarrow> event \<Rightarrow> outcome" where
  "executeListener h l ev = call h (callback l) ev"

text \<open>
  The call of a listener and the suspension at \<open>await\<close>: the callback runs at once, the
  activation resumes later with the outcome.
\<close>

definition suspend_on :: "host \<Rightarrow> bus \<Rightarrow> frame \<Rightarrow> listener \<Rightarrow> bus" where
  "suspend_on h b fr l =
     b\<lparr>calls := calls b @ [(ev_id (f_event fr), lid (config l))],
       suspended := (suspended b)(ev_id (f_event fr) \<mapsto>
                      (fr, l, executeListener h l (f_event fr)))\<rparr>"

text \<open>
  The next element of the Set that matches the event type (lines 223 and 224); \<open>i\<close> is the
  position of the head of the list in the Set.
\<close>

fun next_wildcard :: "host \<Rightarrow> jsval \<Rightarrow> wlistener list \<Rightarrow> nat \<Rightarrow> scan" where
  "next_wildcard h t [] i = Exhausted"
| "next_wildcard h t (l # ls) i =
     (case matchesWildcard h t (pattern l) of
        None \<Rightarrow> Thrown
      | Some True \<Rightarrow> Deliver i l
      | Some False \<Rightarrow> next_wildcard h t ls (Suc i))"

text \<open>The loop over the wildcard listeners (lines 223 to 237), from the iterator's position.\<close>

definition wild_loop :: "host \<Rightarrow> bus \<Rightarrow> frame \<Rightarrow> bus \<times> step_result" where
  "wild_loop h b fr =
     (case next_wildcard h (ev_type (f_event fr))
             (drop (f_windex fr) (sets b (f_wset fr))) (f_windex fr) of
        Deliver i l \<Rightarrow>
          (suspend_on h b (fr\<lparr>f_windex := Suc i\<rparr>)
             \<lparr>callback = callback l, config = config l\<rparr>, Suspended)
      | Exhausted \<Rightarrow> (b, Finished fr)
      | Thrown \<Rightarrow> (b, Failed fr))"

text \<open>
  Lines 213 to 220. \<open>listenersToRemove\<close> is not empty only when \<open>listeners\<close> came from the
  Map, whose keys are strings.
\<close>

definition remove_once :: "bus \<Rightarrow> frame \<Rightarrow> listener list \<Rightarrow> bus" where
  "remove_once b fr ls =
     (if length (f_toRemove fr) > 0 then
        (let remainingListeners = filter (\<lambda>l. l \<notin> set (f_toRemove fr)) ls
         in case ev_type (f_event fr) of
              JStr t \<Rightarrow>
                if length remainingListeners = 0
                then b\<lparr>events := (events b)(t := None)\<rparr>
                else b\<lparr>events := (events b)(t \<mapsto> next_addr b),
                       arrays := (arrays b)(next_addr b := remainingListeners),
                       next_addr := Suc (next_addr b)\<rparr>
            | _ \<Rightarrow> b)
      else b)"

text \<open>
  The loop over the listeners of the event type (lines 189 to 210), from the iterator's
  position: an array iterator reads the length of the array at every step. When the array
  is exhausted, the one-time listeners are removed and the second loop starts on the Set
  that \<open>this.wildcardListeners\<close> holds at that moment.
\<close>

definition exact_loop :: "host \<Rightarrow> bus \<Rightarrow> frame \<Rightarrow> bus \<times> step_result" where
  "exact_loop h b fr =
     (let ls = (case f_listeners fr of None \<Rightarrow> [] | Some a \<Rightarrow> arrays b a)
      in if f_index fr < length ls
         then (suspend_on h b (fr\<lparr>f_index := Suc (f_index fr)\<rparr>) (ls ! f_index fr),
               Suspended)
         else (let b1 = remove_once b fr ls
               in wild_loop h b1
                    (fr\<lparr>f_phase := Wild, f_wset := wildcardListeners b1, f_windex := 0\<rparr>)))"

text \<open>Lines 158 to 187: the envelope, the history, and the first loop.\<close>

definition emit_begin ::
  "host \<Rightarrow> bus \<Rightarrow> jsval \<Rightarrow> payload \<Rightarrow> string option \<Rightarrow> bus \<times> step_result" where
  "emit_begin h b t d src =
     (let eventData = \<lparr>ev_type = t, ev_data = d, ev_id = next_event b,
                        ev_source = or_unknown src\<rparr>;
          b1 = b\<lparr>next_event := Suc (next_event b),
                 eventHistory := add_to_history eventData (eventHistory b),
                 totalEvents := Suc (totalEvents b)\<rparr>
      in exact_loop h b1
           \<lparr>f_event = eventData,
            f_listeners = (case t of JStr s \<Rightarrow> events b1 s | _ \<Rightarrow> None),
            f_index = 0, f_phase = Exact, f_toRemove = [], f_results = [],
            f_errors = [], f_wset = wildcardListeners b1, f_windex = 0\<rparr>)"

text \<open>The continuation of an \<open>await\<close>: lines 192 to 209, or 227 to 235.\<close>

definition continue_emit ::
  "host \<Rightarrow> bus \<Rightarrow> frame \<times> listener \<times> outcome \<Rightarrow> bus \<times> step_result" where
  "continue_emit h b s =
     (case s of (fr, l, out) \<Rightarrow>
        (case f_phase fr of
           Exact \<Rightarrow>
             (case out of
                Returns v \<Rightarrow>
                  exact_loop h b
                    (fr\<lparr>f_results := f_results fr @ [v],
                        f_toRemove := (if once (config l) then f_toRemove fr @ [l]
                                       else f_toRemove fr)\<rparr>)
              | Throws e \<Rightarrow>
                  exact_loop h b (fr\<lparr>f_errors := f_errors fr @ [(lid (config l), e)]\<rparr>))
         | Wild \<Rightarrow>
             (case out of
                Returns v \<Rightarrow> wild_loop h b (fr\<lparr>f_results := f_results fr @ [v]\<rparr>)
              | Throws e \<Rightarrow>
                  wild_loop h b (fr\<lparr>f_errors := f_errors fr @ [(lid (config l), e)]\<rparr>))))"

text \<open>Line 288: the promise of \<open>emit\<close> is resolved with \<open>results\<close>.\<close>

definition resolve :: "bus \<Rightarrow> frame \<Rightarrow> bus" where
  "resolve b fr =
     b\<lparr>suspended := (suspended b)(ev_id (f_event fr) := None),
       settled := (settled b)(ev_id (f_event fr) \<mapsto> Resolved (f_results fr))\<rparr>"

text \<open>
  Lines 268 to 286, reached when \<open>matchesWildcard\<close> throws: a diagnostic is handed to
  \<open>setTimeout\<close> and the error is thrown again, which rejects the promise of \<open>emit\<close>.
\<close>

definition reject :: "bus \<Rightarrow> frame \<Rightarrow> bus" where
  "reject b fr =
     (let b1 = (if ev_type (f_event fr) \<noteq> JStr ''system:error''
                then b\<lparr>timers := timers b
                        @ [CriticalError (ev_type (f_event fr)) (ev_id (f_event fr))]\<rparr>
                else b)
      in b1\<lparr>suspended := (suspended b1)(ev_id (f_event fr) := None),
            settled := (settled b1)(ev_id (f_event fr) \<mapsto> Rejected)\<rparr>)"

text \<open>
  The end of an emission of \<open>system:error\<close>, for which line 258 skips the report of
  listener errors.
\<close>

definition conclude :: "bus \<times> step_result \<Rightarrow> bus" where
  "conclude br =
     (case br of
        (b, Suspended) \<Rightarrow> b
      | (b, Finished fr) \<Rightarrow> resolve b fr
      | (b, Failed fr) \<Rightarrow> reject b fr)"

text \<open>
  Lines 256 to 266: when a listener threw, \<open>this.emit('system:error', ...)\<close> is called and
  not awaited. That call runs until its first \<open>await\<close>; it is an emission of
  \<open>system:error\<close> and so ends with \<open>conclude\<close>.
\<close>

definition report_errors :: "host \<Rightarrow> bus \<Rightarrow> frame \<Rightarrow> bus" where
  "report_errors h b fr =
     (if length (f_errors fr) > 0 \<and> ev_type (f_event fr) \<noteq> JStr ''system:error''
      then conclude (emit_begin h b (JStr ''system:error'')
                       (ListenerErrors (ev_type (f_event fr)) (f_errors fr)
                          (ev_id (f_event fr))) None)
      else b)"

definition finish :: "host \<Rightarrow> bus \<times> step_result \<Rightarrow> bus" where
  "finish h br =
     (case br of
        (b, Suspended) \<Rightarrow> b
      | (b, Finished fr) \<Rightarrow> resolve (report_errors h b fr) fr
      | (b, Failed fr) \<Rightarrow> reject b fr)"

text \<open>
  A call \<open>emit(eventType, data, options)\<close>: it runs until its first \<open>await\<close>, or to its
  end when no listener is called.
\<close>

definition emit :: "host \<Rightarrow> bus \<Rightarrow> jsval \<Rightarrow> payload \<Rightarrow> string option \<Rightarrow> bus" where
  "emit h b t d src = finish h (emit_begin h b t d src)"

text \<open>
  The suspended emission with id \<open>eid\<close> resumes, and runs until its next \<open>await\<close> or to
  its end.
\<close>

definition resume :: "host \<Rightarrow> bus \<Rightarrow> nat \<Rightarrow> bus" where
  "resume h b eid =
     (case suspended b eid of
        None \<Rightarrow> b
      | Some s \<Rightarrow> finish h (continue_emit h b s))"

text \<open>
  Scheduling is cooperative: between two steps of an emission, other calls of the bus can
  run. An interleaving is a list of actions.
\<close>

datatype action =
    Emit jsval payload
  | Resume nat
  | On string nat options
  | Off string nat

fun act :: "host \<Rightarrow> bus \<Rightarrow> action \<Rightarrow> bus" where
  "act h b (Emit t d) = emit h b t d None"
| "act h b (Resume eid) = resume h b eid"
| "act h b (On t f opts) = on_str b t f opts"
| "act h b (Off t f) = off b t f"

definition run :: "host \<Rightarrow> bus \<Rightarrow> action list \<Rightarrow> bus" where
  "run h b as = foldl (act h) b as"

text \<open>
  An emission that is resumed until it has finished, nothing else running in between.
  \<open>None\<close>: not finished after \<open>n\<close> resumptions.
\<close>

fun drive :: "nat \<Rightarrow> host \<Rightarrow> bus \<Rightarrow> nat \<Rightarrow> bus option" where
  "drive 0 h b eid = (if suspended b eid = None then Some b else None)"
| "drive (Suc n) h b eid =
     (if suspended b eid = None then Some b else drive n h (resume h b eid) eid)"

text \<open>The listeners that emission \<open>eid\<close> has called, in the order of the calls.\<close>

definition calls_of :: "bus \<Rightarrow> nat \<Rightarrow> nat list" where
  "calls_of b eid = map snd (filter (\<lambda>c. fst c = eid) (calls b))"

subsection \<open>A host and options for the examples\<close>

text \<open>
  In the examples every callback returns its own number, except callback 9, which throws;
  the wildcard pattern \<open>*\<close>, whose regular expression is \<open>^.*$\<close>, matches every event type
  that occurs in them, and the pattern \<open>(*\<close> gives \<open>^(.*$\<close>, which is not a regular
  expression.
\<close>

definition example_host :: host where
  "example_host =
     \<lparr>regexp_test = (\<lambda>src v. if src = ''^(.*$'' then None else Some (src = ''^.*$'')),
      call = (\<lambda>f ev. if f = 9 then Throws 1 else Returns f)\<rparr>"

definition plain :: options where
  "plain = \<lparr>opt_once = False, opt_priority = 0, opt_module = None\<rparr>"

definition one_time :: options where
  "one_time = \<lparr>opt_once = True, opt_priority = 0, opt_module = None\<rparr>"

definition with_priority :: "int \<Rightarrow> options" where
  "with_priority p = \<lparr>opt_once = False, opt_priority = p, opt_module = None\<rparr>"

subsection \<open>Emissions and what they call\<close>

text \<open>
  A wildcard listener whose pattern matches the event type, and one whose pattern can be
  tested at all (its regular expression compiles).
\<close>

definition matches :: "host \<Rightarrow> jsval \<Rightarrow> wlistener \<Rightarrow> bool" where
  "matches h t w \<longleftrightarrow> matchesWildcard h t (pattern w) = Some True"

definition compiles :: "host \<Rightarrow> jsval \<Rightarrow> wlistener \<Rightarrow> bool" where
  "compiles h t w \<longleftrightarrow> matchesWildcard h t (pattern w) \<noteq> None"

text \<open>
  The values of the outcomes that are returns, in order: what \<open>results\<close> collects.
\<close>

fun returned :: "outcome list \<Rightarrow> nat list" where
  "returned [] = []"
| "returned (Returns v # os) = v # returned os"
| "returned (Throws e # os) = returned os"

text \<open>
  What a step of the emission \<open>e\<close> leaves alone: the Sets, and everything that belongs to
  another emission.
\<close>

definition others_kept :: "nat \<Rightarrow> bus \<Rightarrow> bus \<Rightarrow> bool" where
  "others_kept e b b' \<longleftrightarrow>
     sets b' = sets b \<and> wildcardListeners b' = wildcardListeners b
     \<and> next_listener b' = next_listener b \<and> next_set b' = next_set b
     \<and> (\<forall>x. x \<noteq> e \<longrightarrow> suspended b' x = suspended b x \<and> settled b' x = settled b x
                      \<and> calls_of b' x = calls_of b x)"

text \<open>
  The array that an activation iterates.
\<close>

definition frame_array :: "bus \<Rightarrow> frame \<Rightarrow> listener list" where
  "frame_array b fr = (case f_listeners fr of None \<Rightarrow> [] | Some a \<Rightarrow> arrays b a)"

text \<open>
  The order of the listeners of an event type: higher priority first, and among equal
  priorities the listener registered earlier first. The order of the wildcard listeners: by
  registration.
\<close>

definition before :: "listener \<Rightarrow> listener \<Rightarrow> bool" where
  "before x y \<longleftrightarrow>
     priority (config x) > priority (config y)
     \<or> (priority (config x) = priority (config y) \<and> lid (config x) < lid (config y))"

definition earlier :: "wlistener \<Rightarrow> wlistener \<Rightarrow> bool" where
  "earlier x y \<longleftrightarrow> lid (config x) < lid (config y)"

text \<open>
  Every array and every Set in the store is in that order, and holds listeners that were
  registered before the next one.
\<close>

definition sorted_ok :: "bus \<Rightarrow> bool" where
  "sorted_ok b \<longleftrightarrow>
     (\<forall>a. sorted_wrt before (arrays b a)
          \<and> (\<forall>l \<in> set (arrays b a). lid (config l) < next_listener b)
          \<and> sorted_wrt earlier (sets b a)
          \<and> (\<forall>w \<in> set (sets b a). lid (config w) < next_listener b))"

text \<open>
  The event of an activation has an id that was given out, and its array is allocated.
\<close>

definition frame_ok :: "bus \<Rightarrow> frame \<Rightarrow> bool" where
  "frame_ok b fr \<longleftrightarrow>
     ev_id (f_event fr) < next_event b \<and> (\<forall>a. f_listeners fr = Some a \<longrightarrow> a < next_addr b)"

text \<open>
  The calls in the log, the arrays in the Map and the suspended activations refer to ids and
  addresses that were given out; an activation is kept under the id of its event.
\<close>

definition frames_ok :: "bus \<Rightarrow> bool" where
  "frames_ok b \<longleftrightarrow>
     (\<forall>c \<in> set (calls b). fst c < next_event b)
     \<and> (\<forall>t a. events b t = Some a \<longrightarrow> a < next_addr b)
     \<and> (\<forall>e s. suspended b e = Some s \<longrightarrow>
            ev_id (f_event (fst s)) = e \<and> e < next_event b
            \<and> (\<forall>a. f_listeners (fst s) = Some a \<longrightarrow> a < next_addr b))"

definition bus_ok :: "bus \<Rightarrow> bool" where
  "bus_ok b \<longleftrightarrow> sorted_ok b \<and> frames_ok b"

text \<open>
  The listeners that an emission of the event type \<open>t\<close> finds when it starts in \<open>b\<close>: the array
  registered for \<open>t\<close>, and the wildcard listeners whose pattern matches \<open>t\<close>, up to the first
  pattern whose test throws (all of them, when every pattern compiles).
\<close>

definition exact_listeners :: "bus \<Rightarrow> jsval \<Rightarrow> listener list" where
  "exact_listeners b t =
     (case t of
        JStr s \<Rightarrow> (case events b s of None \<Rightarrow> [] | Some a \<Rightarrow> arrays b a)
      | _ \<Rightarrow> [])"

fun deliverable :: "host \<Rightarrow> jsval \<Rightarrow> wlistener list \<Rightarrow> wlistener list" where
  "deliverable h t [] = []"
| "deliverable h t (w # ws) =
     (case matchesWildcard h t (pattern w) of
        None \<Rightarrow> []
      | Some True \<Rightarrow> w # deliverable h t ws
      | Some False \<Rightarrow> deliverable h t ws)"

definition wildcard_listeners :: "host \<Rightarrow> bus \<Rightarrow> jsval \<Rightarrow> wlistener list" where
  "wildcard_listeners h b t = deliverable h t (sets b (wildcardListeners b))"

text \<open>
  The envelope that \<open>emit\<close> builds (lines 161 to 167).
\<close>

definition envelope :: "bus \<Rightarrow> jsval \<Rightarrow> payload \<Rightarrow> string option \<Rightarrow> event" where
  "envelope b t d src =
     \<lparr>ev_type = t, ev_data = d, ev_id = next_event b,
      ev_source = or_unknown src\<rparr>"

text \<open>
  Two buses in which the emission \<open>e\<close>, with the activation \<open>fr\<close>, sees the same listeners:
  the Sets are the same, and so is the array that the activation iterates.
\<close>

definition agree :: "nat \<Rightarrow> frame \<Rightarrow> bus \<Rightarrow> bus \<Rightarrow> bool" where
  "agree e fr b1 b2 \<longleftrightarrow>
     sets b1 = sets b2 \<and> wildcardListeners b1 = wildcardListeners b2
     \<and> e < next_event b1 \<and> e < next_event b2 \<and> ev_id (f_event fr) = e
     \<and> (\<forall>a. f_listeners fr = Some a \<longrightarrow>
            arrays b1 a = arrays b2 a \<and> a < next_addr b1 \<and> a < next_addr b2)"

text \<open>
  Two buses in which the emission \<open>e\<close> is in the same state.
\<close>

definition same_for :: "nat \<Rightarrow> bus \<Rightarrow> bus \<Rightarrow> bool" where
  "same_for e b1 b2 \<longleftrightarrow>
     suspended b1 e = suspended b2 e \<and> settled b1 e = settled b2 e
     \<and> calls_of b1 e = calls_of b2 e
     \<and> (\<forall>s. suspended b1 e = Some s \<longrightarrow> agree e (fst s) b1 b2)"

text \<open>
  What a call of the bus that has nothing to do with the emission \<open>e\<close> leaves alone: the
  state of \<open>e\<close>, its calls, the Sets, and the arrays that exist.
\<close>

definition view_kept :: "nat \<Rightarrow> bus \<Rightarrow> bus \<Rightarrow> bool" where
  "view_kept e b b' \<longleftrightarrow>
     suspended b' e = suspended b e \<and> settled b' e = settled b e
     \<and> calls_of b' e = calls_of b e
     \<and> sets b' = sets b \<and> wildcardListeners b' = wildcardListeners b
     \<and> next_listener b' = next_listener b \<and> next_set b' = next_set b
     \<and> next_event b \<le> next_event b' \<and> next_addr b \<le> next_addr b'
     \<and> (\<forall>a. a < next_addr b \<longrightarrow> arrays b' a = arrays b a)"


text \<open>Buses for the examples.\<close>

definition priority_bus :: bus where
  "priority_bus = run example_host new_bus
     [On ''note:added'' 2 (with_priority 5), On ''note:added'' 1 (with_priority 10),
      On ''*'' 3 plain]"

definition throwing_bus :: bus where
  "throwing_bus = run example_host new_bus [On ''x'' 9 plain, On ''x'' 8 plain]"

definition malformed_bus :: bus where
  "malformed_bus = run example_host new_bus
     [On ''x'' 1 plain, On ''(*'' 2 plain, On ''*'' 3 plain]"



section \<open>The core (class VaultCore)\<close>

text \<open>
  A module is an object. The model records what the core and the loader look at: whether
  the properties \<open>name\<close> and \<open>version\<close> exist, whether \<open>init\<close> and \<open>getAPI\<close> exist and are
  functions and, if so, what calling them leads to, and the array \<open>dependencies\<close>
  (\<open>None\<close> when the property is missing or not an array). A call of \<open>init\<close> is taken to
  do nothing to the registries of the core beyond resolving or throwing.
\<close>

datatype 'a member = Missing | NotAFunction | Method 'a

datatype init_outcome = InitResolves | InitThrows

datatype api_outcome = ApiThrows | NoApi | Api nat

record module_instance =
  m_name :: "string option"
  m_version :: "string option"
  m_init :: "init_outcome member"
  m_getAPI :: "api_outcome member"
  m_dependencies :: "string list option"

record core =
  modules :: "string \<rightharpoonup> module_instance"
  apis :: "string \<rightharpoonup> nat"
  eventBus :: "bus option"

text \<open>Lines 583 to 607 of the core.\<close>

definition validateModuleInterface :: "module_instance \<Rightarrow> bool" where
  "validateModuleInterface m =
     (if m_name m = None \<or> m_version m = None \<or> m_init m = Missing \<or> m_getAPI m = Missing
      then False
      else if m_init m = NotAFunction then False
      else if m_getAPI m = NotAFunction then False
      else True)"

text \<open>
  Lines 108 to 141. Every exception inside the \<open>try\<close> is caught and turned into the
  result \<open>false\<close>: the failed validation, a throwing \<open>init\<close>, a throwing \<open>getAPI\<close>, and
  the call of \<open>emit\<close> on a missing event bus.
\<close>

definition registerModule ::
  "host \<Rightarrow> core \<Rightarrow> string \<Rightarrow> module_instance \<Rightarrow> core \<times> bool" where
  "registerModule h c name m =
     (if name \<in> dom (modules c) then (c, False)
      else if \<not> validateModuleInterface m then (c, False)
      else if m_init m \<noteq> Method InitResolves then (c, False)
      else
        (let c1 = c\<lparr>modules := (modules c)(name \<mapsto> m)\<rparr>
         in case (case m_getAPI m of
                    Method (Api a) \<Rightarrow> Some (c1\<lparr>apis := (apis c1)(name \<mapsto> a)\<rparr>)
                  | Method NoApi \<Rightarrow> Some c1
                  | _ \<Rightarrow> None) of
              None \<Rightarrow> (c1, False)
            | Some c2 \<Rightarrow>
                (case eventBus c2 of
                   None \<Rightarrow> (c2, False)
                 | Some b \<Rightarrow>
                     (c2\<lparr>eventBus := Some (emit h b (JStr ''core:module-registered'')
                                           (ModuleRegistered name (m_version m)) None)\<rparr>,
                      True))))"

section \<open>The module loader (class ModuleLoader)\<close>

text \<open>
  A call of \<open>loadModule\<close> is modelled together with the loads of dependencies that it awaits,
  as one chain of calls. Its result is the loader when the chain has run, and what has become
  of the promise of the call: resolved, rejected, or still awaiting another promise
  (\<open>Awaits p\<close>, line 582: \<open>p\<close> is the promise of a load that is in flight).

  \<open>_loadModuleFile\<close> (lines 656 to 671) waits for a timer and returns the mock class of
  \<open>_getMockModule\<close> for every name; its \<open>catch\<close> is not reached, since neither the timer nor
  \<open>_getMockModule\<close> throws. Classes with dependencies reach the loader through \<open>moduleCache\<close>
  only, which \<open>_doLoadModule\<close> reads first (line 617): the model starts from any cache. A
  class is identified with the instance that \<open>new\<close> makes of it.

  \<open>loadingPromises.set\<close> (line 589) runs when \<open>_doLoadModule\<close> has returned its promise, which
  it does when the chain of calls meets its first \<open>await\<close>. Until then the calls of
  \<open>loadModule\<close> are on the call stack: \<open>entering\<close> holds the calls that have called
  \<open>_doLoadModule\<close> and have not stored its promise yet, the innermost first, each with its
  promise. The engine throws a \<open>RangeError\<close> when the stack is exhausted; the parameter \<open>d\<close> of
  \<open>loadModule\<close> is the number of nested calls of \<open>loadModule\<close> that the stack holds.

  At an \<open>await\<close> other code can run: \<open>suspend env\<close> lets the calls on the stack store their
  promises and then lets the environment \<open>env\<close> act on the loader; with \<open>\<lambda>s. s\<close> the chain
  runs alone. A call of \<open>registerModule\<close> is taken as one step. The result of every function
  is \<open>None\<close> when the chain needs more than \<open>k\<close> nested loads.

  \<open>trace\<close> lists what happened, in order: \<open>new ModuleClass()\<close> (line 625), the call of
  \<open>registerModule\<close> (line 637), in which the module's \<open>init\<close> runs, and \<open>loadedModules.set\<close>
  (line 593), which marks the module as loaded. \<open>promises\<close> records how the promise of each
  call of \<open>_doLoadModule\<close> has settled. \<open>ticks\<close> and \<open>replies\<close> belong to the environment: the
  number of suspensions it has seen, and the results of the calls it has made.
\<close>

datatype load_error = InvalidInterface string | RangeError

datatype 'a promised = Resolves 'a | Rejects load_error | Awaits nat

datatype load_event =
    Instantiated string
  | Registering string module_instance
  | Activated string module_instance

record loader =
  moduleCache :: "string \<rightharpoonup> module_instance"
  loadedModules :: "string \<rightharpoonup> module_instance"
  loadingPromises :: "string \<rightharpoonup> nat"
  promises :: "nat \<rightharpoonup> module_instance promised"
  next_promise :: nat
  entering :: "(string \<times> nat) list"
  vault :: "core option"
  trace :: "load_event list"
  ticks :: nat
  replies :: "module_instance promised list"


text \<open>
  Line 589, for every call on the stack, the innermost first: an outer call of the same name
  overwrites the entry of an inner one.
\<close>

definition store_promises :: "loader \<Rightarrow> loader" where
  "store_promises s =
     s\<lparr>loadingPromises := loadingPromises s ++ map_of (rev (entering s)), entering := []\<rparr>"

definition suspend :: "(loader \<Rightarrow> loader) \<Rightarrow> loader \<Rightarrow> loader" where
  "suspend env s = env (store_promises s)"

text \<open>Lines 735 to 751.\<close>

definition loader_validateModuleInterface :: "module_instance \<Rightarrow> bool" where
  "loader_validateModuleInterface m =
     (if m_name m = None \<or> m_version m = None \<or> m_init m = Missing \<or> m_getAPI m = Missing
      then False
      else if m_init m = NotAFunction \<or> m_getAPI m = NotAFunction then False
      else True)"

text \<open>Lines 678 to 711: the mock module that the placeholder returns for every name.\<close>

definition mock_module :: "string \<Rightarrow> module_instance" where
  "mock_module name =
     \<lparr>m_name = Some name, m_version = Some ''1.0.0'', m_init = Method InitResolves,
      m_getAPI = Method (Api 0), m_dependencies = Some []\<rparr>"







subsection \<open>Dependencies and the order of events\<close>



text \<open>
  The class that the loader instantiates for a name: the cached one, or the mock. The
  dependency graph of these classes, without the edges to \<open>core\<close>.
\<close>

definition class_of :: "loader \<Rightarrow> string \<Rightarrow> module_instance" where
  "class_of s n = (case moduleCache s n of Some c \<Rightarrow> c | None \<Rightarrow> mock_module n)"







fun event_name :: "load_event \<Rightarrow> string" where
  "event_name (Instantiated n) = n"
| "event_name (Registering n m) = n"
| "event_name (Activated n m) = n"

text \<open>How often a module was instantiated, and \<open>registerModule\<close> called for it.\<close>

definition instantiations :: "string \<Rightarrow> load_event list \<Rightarrow> nat" where
  "instantiations X tr = length (filter (\<lambda>e. e = Instantiated X) tr)"

fun is_registering :: "string \<Rightarrow> load_event \<Rightarrow> bool" where
  "is_registering X (Registering n m) = (n = X)"
| "is_registering X e = False"

definition registrations :: "string \<Rightarrow> load_event list \<Rightarrow> nat" where
  "registrations X tr = length (filter (is_registering X) tr)"

subsection \<open>Classes for the examples\<close>



definition example_core :: core where
  "example_core = \<lparr>modules = Map.empty, apis = Map.empty, eventBus = Some new_bus\<rparr>"




subsection \<open>Invariants of a load\<close>



text \<open>A set of modules that contains the dependencies of its members and no module on a cycle.\<close>

definition good :: "(string \<times> string) set \<Rightarrow> string set \<Rightarrow> bool" where
  "good D L \<longleftrightarrow> (\<forall>n \<in> L. \<forall>d. (n, d) \<in> D \<longrightarrow> d \<in> L) \<and> (\<forall>n \<in> L. (n, n) \<notin> D\<^sup>+)"

text \<open>Every class has the interface that the loader requires.\<close>

definition valid_classes :: "loader \<Rightarrow> bool" where
  "valid_classes s \<longleftrightarrow> (\<forall>n. loader_validateModuleInterface (class_of s n))"


text \<open>
  The entry that \<open>loadingPromises\<close> holds for a name once the calls on the stack have
  stored their promises. The load of \<open>X\<close> is in flight with the promise \<open>p\<close>.
\<close>

definition entry_of :: "loader \<Rightarrow> string \<rightharpoonup> nat" where
  "entry_of s = loadingPromises s ++ map_of (rev (entering s))"





definition calm :: "string \<Rightarrow> load_event list \<Rightarrow> bool" where
  "calm X tr = list_all (\<lambda>e. event_name e \<noteq> X) tr"


section \<open>Properties of the event bus\<close>

subsection \<open>off\<close>

lemma off_exact_events:
  assumes "CHR ''*'' \<notin> set P"
  shows "events (off b P f) P =
           (case events b P of
              None \<Rightarrow> None
            | Some a \<Rightarrow>
                if filter (\<lambda>l. callback l \<noteq> f) (arrays b a) = [] then None
                else Some (next_addr b))"
  using assms by (simp add: off_def Let_def split: option.splits)

lemma off_exact_bucket:
  assumes "CHR ''*'' \<notin> set P"
  shows "bucket (off b P f) P =
           (case bucket b P of
              None \<Rightarrow> None
            | Some ls \<Rightarrow>
                if filter (\<lambda>l. callback l \<noteq> f) ls = [] then None
                else Some (filter (\<lambda>l. callback l \<noteq> f) ls))"
  using assms by (simp add: off_def bucket_def Let_def split: option.splits)

text \<open>
  Claim C10. For an exact pattern \<open>P\<close> (one without \<open>*\<close>) and a function \<open>f\<close>, one call
  \<open>off(P, f)\<close> leaves on \<open>P\<close> exactly the listeners whose callback is not \<open>f\<close>, in their
  order, so every subscription of \<open>f\<close> to \<open>P\<close> is removed at once; and the entry of \<open>P\<close>
  is deleted from the Map when no listener remains.
\<close>

theorem off_removes_every_subscription:
  assumes "CHR ''*'' \<notin> set P"
  shows "(\<forall>ls. bucket b P = Some ls \<longrightarrow>
            (if \<forall>l \<in> set ls. callback l = f
             then events (off b P f) P = None
             else bucket (off b P f) P = Some (filter (\<lambda>l. callback l \<noteq> f) ls)
                  \<and> (\<forall>l \<in> set (the (bucket (off b P f) P)). callback l \<noteq> f)))
         \<and> (bucket b P = None \<longrightarrow> events (off b P f) P = None)"
proof -
  have none: "filter (\<lambda>l. callback l \<noteq> f) ls = [] \<longleftrightarrow> (\<forall>l \<in> set ls. callback l = f)"
    for ls :: "listener list"
    by (simp add: filter_empty_conv)
  show ?thesis
    using off_exact_events [OF assms, of b f] off_exact_bucket [OF assms, of b f]
    by (auto simp: bucket_def none split: option.splits if_splits)
qed

theorem off_removes_every_subscription_witness:
  "CHR ''*'' \<notin> set ''p''
   \<and> bucket (run example_host new_bus [On ''p'' 7 plain, On ''p'' 8 plain, On ''p'' 7 plain]) ''p''
       = Some [\<lparr>callback = 7, config = \<lparr>once = False, priority = 0,
                    owner_module = ''unknown'', lid = 0\<rparr>\<rparr>,
               \<lparr>callback = 8, config = \<lparr>once = False, priority = 0,
                    owner_module = ''unknown'', lid = 1\<rparr>\<rparr>,
               \<lparr>callback = 7, config = \<lparr>once = False, priority = 0,
                    owner_module = ''unknown'', lid = 2\<rparr>\<rparr>]
   \<and> bucket (off (run example_host new_bus
                      [On ''p'' 7 plain, On ''p'' 8 plain, On ''p'' 7 plain]) ''p'' 7) ''p''
       = Some [\<lparr>callback = 8, config = \<lparr>once = False, priority = 0,
                    owner_module = ''unknown'', lid = 1\<rparr>\<rparr>]
   \<and> events (off (off (run example_host new_bus
                      [On ''p'' 7 plain, On ''p'' 8 plain, On ''p'' 7 plain]) ''p'' 7) ''p'' 8) ''p''
       = None"
proof -
  have star: "CHR ''*'' \<notin> set ''p''" by simp
  have b: "bucket (run example_host new_bus
                     [On ''p'' 7 plain, On ''p'' 8 plain, On ''p'' 7 plain]) ''p''
       = Some [\<lparr>callback = 7, config = \<lparr>once = False, priority = 0,
                    owner_module = ''unknown'', lid = 0\<rparr>\<rparr>,
               \<lparr>callback = 8, config = \<lparr>once = False, priority = 0,
                    owner_module = ''unknown'', lid = 1\<rparr>\<rparr>,
               \<lparr>callback = 7, config = \<lparr>once = False, priority = 0,
                    owner_module = ''unknown'', lid = 2\<rparr>\<rparr>]"
    by code_simp
  have b1: "bucket (off (run example_host new_bus
                      [On ''p'' 7 plain, On ''p'' 8 plain, On ''p'' 7 plain]) ''p'' 7) ''p''
       = Some [\<lparr>callback = 8, config = \<lparr>once = False, priority = 0,
                    owner_module = ''unknown'', lid = 1\<rparr>\<rparr>]"
    using off_removes_every_subscription [OF star,
        of "run example_host new_bus [On ''p'' 7 plain, On ''p'' 8 plain, On ''p'' 7 plain]" 7] b
    by simp
  have "events (off (off (run example_host new_bus
                      [On ''p'' 7 plain, On ''p'' 8 plain, On ''p'' 7 plain]) ''p'' 7) ''p'' 8) ''p''
       = None"
    using off_removes_every_subscription [OF star,
        of "off (run example_host new_bus
                   [On ''p'' 7 plain, On ''p'' 8 plain, On ''p'' 7 plain]) ''p'' 7" 8] b1
    by simp
  with star b b1 show ?thesis by simp
qed

subsection \<open>The history\<close>

lemma add_to_history_drop:
  assumes "length h \<le> maxHistorySize"
  shows "add_to_history e h = drop (length (h @ [e]) - maxHistorySize) (h @ [e])"
proof (cases "length h = maxHistorySize")
  case True
  then have "h \<noteq> []" by (auto simp: maxHistorySize_def)
  then obtain x xs where "h = x # xs" by (cases h) auto
  with True show ?thesis by (simp add: add_to_history_def)
next
  case False
  with assms show ?thesis by (simp add: add_to_history_def)
qed

lemma add_to_history_length:
  assumes "length h \<le> maxHistorySize"
  shows "length (add_to_history e h) = min (Suc (length h)) maxHistorySize"
  using assms by (auto simp: add_to_history_def Let_def)

text \<open>
  After any number of envelopes the history holds the most recent ones, at most
  \<open>maxHistorySize\<close> of them, oldest first.
\<close>

lemma history_keeps_most_recent:
  assumes "length h \<le> maxHistorySize"
  shows "foldl (\<lambda>h e. add_to_history e h) h es
           = drop (length (h @ es) - maxHistorySize) (h @ es)"
  using assms
proof (induction es arbitrary: h)
  case Nil
  then show ?case by simp
next
  case (Cons e es)
  have len: "length (add_to_history e h) \<le> maxHistorySize"
    using Cons.prems by (simp add: add_to_history_length)
  have step: "foldl (\<lambda>h e. add_to_history e h) (add_to_history e h) es
          = drop (length (add_to_history e h @ es) - maxHistorySize) (add_to_history e h @ es)"
    by (rule Cons.IH [OF len])
  show ?case
  proof (cases "length h = maxHistorySize")
    case True
    then obtain x xs where h: "h = x # xs" by (cases h) (auto simp: maxHistorySize_def)
    with True have a: "add_to_history e h = xs @ [e]" by (simp add: add_to_history_def)
    from True h have m: "maxHistorySize = Suc (length xs)" by simp
    have "foldl (\<lambda>h e. add_to_history e h) (xs @ [e]) es
            = drop (length ((xs @ [e]) @ es) - maxHistorySize) ((xs @ [e]) @ es)"
      using step unfolding a .
    also have "\<dots> = drop (length ((x # xs) @ e # es) - maxHistorySize) ((x # xs) @ e # es)"
      unfolding m by simp
    finally show ?thesis using a unfolding h by simp
  next
    case False
    with Cons.prems have a: "add_to_history e h = h @ [e]" by (simp add: add_to_history_def)
    show ?thesis using step by (simp add: a)
  qed
qed

lemma history_after_101:
  assumes "length es = 101"
  shows "foldl (\<lambda>h e. add_to_history e h) [] es = tl es"
    and "length (foldl (\<lambda>h e. add_to_history e h) [] es) = 100"
  using assms history_keeps_most_recent [of "[]" es]
  by (simp_all add: maxHistorySize_def drop_Suc)

lemma wild_loop_history:
  "eventHistory (fst (wild_loop h b fr)) = eventHistory b"
  by (simp add: wild_loop_def suspend_on_def split: scan.splits)

lemma exact_loop_history:
  "eventHistory (fst (exact_loop h b fr)) = eventHistory b"
  by (simp add: exact_loop_def Let_def suspend_on_def remove_once_def wild_loop_history
      split: jsval.splits)

lemma wild_loop_finished:
  "wild_loop h b fr = (b', Finished fr') \<Longrightarrow> fr' = fr \<and> b' = b"
  by (auto simp: wild_loop_def split: scan.splits)

lemma exact_loop_finished_errors:
  "exact_loop h b fr = (b', Finished fr') \<Longrightarrow> f_errors fr' = f_errors fr"
  by (auto simp: exact_loop_def Let_def split: if_splits dest!: wild_loop_finished)

text \<open>Every call of \<open>emit\<close> adds exactly its own envelope to the history.\<close>

lemma emit_history:
  "eventHistory (emit h b t d src)
     = add_to_history \<lparr>ev_type = t, ev_data = d, ev_id = next_event b,
                        ev_source = or_unknown src\<rparr>
         (eventHistory b)"
proof -
  obtain b' r where br: "emit_begin h b t d src = (b', r)" by (cases "emit_begin h b t d src")
  have hist: "eventHistory b'
     = add_to_history \<lparr>ev_type = t, ev_data = d, ev_id = next_event b,
                        ev_source = or_unknown src\<rparr>
         (eventHistory b)"
    using arg_cong [OF br, of "\<lambda>x. eventHistory (fst x)"]
    by (simp add: emit_begin_def Let_def exact_loop_history)
  show ?thesis
  proof (cases r)
    case Suspended
    with br hist show ?thesis by (simp add: emit_def finish_def)
  next
    case (Finished fr)
    with br have "f_errors fr = []"
      by (auto simp: emit_begin_def Let_def dest!: exact_loop_finished_errors)
    with br hist Finished show ?thesis
      by (simp add: emit_def finish_def report_errors_def resolve_def)
  next
    case (Failed fr)
    with br hist show ?thesis by (simp add: emit_def finish_def reject_def Let_def)
  qed
qed

lemma getHistory_positive:
  assumes "0 < N"
  shows "getHistory b N = drop (length (eventHistory b) - nat N) (eventHistory b)"
proof -
  have "nat (int (length (eventHistory b)) - N) = length (eventHistory b) - nat N"
    using assms by linarith
  with assms show ?thesis by (simp add: getHistory_def slice_from_def)
qed

text \<open>
  Claim C8, evaluated at \<open>getHistory(0)\<close>. The history is the bounded first-in first-out
  buffer that the claim describes (\<open>emit_history\<close>, \<open>history_keeps_most_recent\<close>,
  \<open>history_after_101\<close>), and for \<open>N > 0\<close> the accessor returns the most recent \<open>N\<close>
  envelopes (\<open>getHistory_positive\<close>); but \<open>getHistory(0)\<close> is \<open>slice(-0)\<close>, which returns
  the whole history instead of no envelope.
\<close>

theorem getHistory_zero_returns_whole_history:
  "getHistory (run example_host new_bus
                 [Emit (JStr ''a'') (Data 0), Emit (JStr ''b'') (Data 1)]) 0
     = [\<lparr>ev_type = JStr ''a'', ev_data = Data 0, ev_id = 0, ev_source = ''unknown''\<rparr>,
        \<lparr>ev_type = JStr ''b'', ev_data = Data 1, ev_id = 1, ev_source = ''unknown''\<rparr>]"
  by code_simp

subsection \<open>One-time listeners\<close>

text \<open>
  Claim C1, evaluated on two emissions of \<open>p\<close> started one after the other. Listener 0 is
  subscribed to \<open>p\<close> with the once flag. The first \<open>emit\<close> calls it and is suspended at
  its \<open>await\<close>; the one-time listeners are removed only after the loop, so the second
  \<open>emit\<close> finds listener 0 still in the array and calls it again.
\<close>

theorem once_listener_called_by_both_emissions:
  "calls (run example_host new_bus
            [On ''p'' 7 one_time,
             Emit (JStr ''p'') (Data 0), Emit (JStr ''p'') (Data 0),
             Resume 0, Resume 1])
     = [(0, 0), (1, 0)]"
  by code_simp

text \<open>
  A one-time listener on a wildcard pattern is never removed: the second loop of \<open>emit\<close>
  does not look at the once flag. Two emissions, the first one finished before the second
  starts, both call it.
\<close>

lemma once_wildcard_listener_called_again:
  "calls (run example_host new_bus
            [On ''*'' 7 one_time,
             Emit (JStr ''p'') (Data 0), Resume 0,
             Emit (JStr ''p'') (Data 0), Resume 1])
     = [(0, 0), (1, 0)]"
  by code_simp

subsection \<open>An emission that runs alone\<close>

lemma returned_append: "returned (xs @ ys) = returned xs @ returned ys"
  by (induction xs rule: returned.induct) auto

lemma returned_single: "returned [x] @ returned xs = returned (x # xs)"
  by (cases x) simp_all

lemma calls_of_append: "calls_of (b\<lparr>calls := calls b @ cs\<rparr>) e
  = calls_of b e @ map snd (filter (\<lambda>c. fst c = e) cs)"
  by (simp add: calls_of_def)

lemma next_wildcard_Exhausted:
  "next_wildcard h t xs i = Exhausted \<Longrightarrow>
     deliverable h t xs = [] \<and> list_all (compiles h t) xs"
  by (induction xs arbitrary: i) (auto simp: compiles_def split: option.splits bool.splits)

lemma next_wildcard_Thrown:
  "next_wildcard h t xs i = Thrown \<Longrightarrow>
     deliverable h t xs = [] \<and> \<not> list_all (compiles h t) xs"
  by (induction xs arbitrary: i) (auto simp: compiles_def split: option.splits bool.splits)

lemma next_wildcard_Deliver:
  "next_wildcard h t xs i = Deliver j w \<Longrightarrow>
     i \<le> j \<and> j - i < length xs \<and> xs ! (j - i) = w
     \<and> deliverable h t xs = w # deliverable h t (drop (Suc (j - i)) xs)
     \<and> list_all (compiles h t) xs = list_all (compiles h t) (drop (Suc (j - i)) xs)"
proof (induction xs arbitrary: i)
  case Nil
  then show ?case by simp
next
  case (Cons x xs)
  show ?case
  proof (cases "matchesWildcard h t (pattern x)")
    case None
    with Cons.prems show ?thesis by simp
  next
    case (Some m)
    then have cx: "compiles h t x" by (simp add: compiles_def)
    show ?thesis
    proof (cases m)
      case True
      with Some Cons.prems cx show ?thesis by simp
    next
      case False
      with Some Cons.prems have "next_wildcard h t xs (Suc i) = Deliver j w" by simp
      from Cons.IH [OF this] have ih: "Suc i \<le> j" "j - Suc i < length xs"
        "xs ! (j - Suc i) = w"
        "deliverable h t xs = w # deliverable h t (drop (Suc (j - Suc i)) xs)"
        "list_all (compiles h t) xs = list_all (compiles h t) (drop (Suc (j - Suc i)) xs)"
        by auto
      from ih(1) have ji: "j - i = Suc (j - Suc i)" by simp
      from Some False have "deliverable h t (x # xs) = deliverable h t xs" by simp
      with ih ji cx show ?thesis by simp
    qed
  qed
qed

lemma deliverable_subset: "set (deliverable h t ws) \<subseteq> set ws"
  by (induction ws) (auto split: option.splits bool.splits)

lemma sorted_wrt_deliverable: "sorted_wrt P ws \<Longrightarrow> sorted_wrt P (deliverable h t ws)"
proof (induction ws)
  case Nil
  then show ?case by simp
next
  case (Cons w ws)
  then have "sorted_wrt P (deliverable h t ws)" and "\<forall>x \<in> set (deliverable h t ws). P w x"
    using deliverable_subset [of h t ws] by auto
  then show ?case by (simp split: option.splits bool.splits)
qed

lemma deliverable_filter:
  "list_all (compiles h t) ws \<Longrightarrow> deliverable h t ws = filter (matches h t) ws"
  by (induction ws) (auto simp: compiles_def matches_def split: option.splits bool.splits)

lemma deliverable_matches: "list_all (matches h t) (deliverable h t ws)"
  by (induction ws) (auto simp: matches_def split: option.splits bool.splits)

lemma suspend_on_fields [simp]:
  "sets (suspend_on h b fr l) = sets b"
  "arrays (suspend_on h b fr l) = arrays b"
  "events (suspend_on h b fr l) = events b"
  "wildcardListeners (suspend_on h b fr l) = wildcardListeners b"
  "next_addr (suspend_on h b fr l) = next_addr b"
  "next_event (suspend_on h b fr l) = next_event b"
  "next_listener (suspend_on h b fr l) = next_listener b"
  "next_set (suspend_on h b fr l) = next_set b"
  "settled (suspend_on h b fr l) = settled b"
  "suspended (suspend_on h b fr l)
     = (suspended b)(ev_id (f_event fr) \<mapsto> (fr, l, executeListener h l (f_event fr)))"
  "calls (suspend_on h b fr l) = calls b @ [(ev_id (f_event fr), lid (config l))]"
  by (simp_all add: suspend_on_def)

lemma calls_of_suspend_on:
  "calls_of (suspend_on h b fr l) e
     = (if e = ev_id (f_event fr) then calls_of b e @ [lid (config l)] else calls_of b e)"
  by (simp add: calls_of_def)

lemma remove_once_fields [simp]:
  "sets (remove_once b fr ls) = sets b"
  "wildcardListeners (remove_once b fr ls) = wildcardListeners b"
  "next_event (remove_once b fr ls) = next_event b"
  "next_listener (remove_once b fr ls) = next_listener b"
  "next_set (remove_once b fr ls) = next_set b"
  "settled (remove_once b fr ls) = settled b"
  "suspended (remove_once b fr ls) = suspended b"
  "calls (remove_once b fr ls) = calls b"
  by (simp_all add: remove_once_def Let_def split: jsval.splits)

lemma calls_of_remove_once [simp]: "calls_of (remove_once b fr ls) e = calls_of b e"
  by (simp add: calls_of_def)

lemma others_kept_refl [simp]: "others_kept e b b"
  by (simp add: others_kept_def)

lemma others_kept_trans: "others_kept e b b1 \<Longrightarrow> others_kept e b1 b2 \<Longrightarrow> others_kept e b b2"
  by (simp add: others_kept_def)

lemma wild_loop_kept:
  "others_kept (ev_id (f_event fr)) b (fst (wild_loop h b fr))
   \<and> next_event (fst (wild_loop h b fr)) = next_event b
   \<and> settled (fst (wild_loop h b fr)) = settled b"
  by (simp add: wild_loop_def others_kept_def calls_of_suspend_on split: scan.splits)

lemma exact_loop_kept:
  "others_kept (ev_id (f_event fr)) b (fst (exact_loop h b fr))
   \<and> next_event (fst (exact_loop h b fr)) = next_event b
   \<and> settled (fst (exact_loop h b fr)) = settled b"
proof (cases "f_index fr < length (case f_listeners fr of None \<Rightarrow> [] | Some a \<Rightarrow> arrays b a)")
  case True
  then show ?thesis
    by (simp add: exact_loop_def Let_def others_kept_def calls_of_suspend_on)
next
  case False
  let ?ls = "case f_listeners fr of None \<Rightarrow> [] | Some a \<Rightarrow> arrays b a"
  let ?b1 = "remove_once b fr ?ls"
  let ?fr = "fr\<lparr>f_phase := Wild, f_wset := wildcardListeners ?b1, f_windex := 0\<rparr>"
  have 1: "others_kept (ev_id (f_event fr)) b ?b1" by (simp add: others_kept_def)
  have "others_kept (ev_id (f_event ?fr)) ?b1 (fst (wild_loop h ?b1 ?fr))
   \<and> next_event (fst (wild_loop h ?b1 ?fr)) = next_event ?b1
   \<and> settled (fst (wild_loop h ?b1 ?fr)) = settled ?b1"
    by (rule wild_loop_kept)
  with 1 False show ?thesis
    by (auto simp: exact_loop_def Let_def intro: others_kept_trans)
qed

lemma wild_loop_frame:
  "snd (wild_loop h b fr) = Finished fr' \<or> snd (wild_loop h b fr) = Failed fr' \<Longrightarrow> fr' = fr"
  by (auto simp: wild_loop_def split: scan.splits)

lemma exact_loop_frame:
  "snd (exact_loop h b fr) = Finished fr' \<or> snd (exact_loop h b fr) = Failed fr'
     \<Longrightarrow> f_event fr' = f_event fr \<and> f_errors fr' = f_errors fr \<and> f_results fr' = f_results fr"
  by (auto simp: exact_loop_def Let_def split: if_splits dest!: wild_loop_frame)

lemma resolve_kept: "others_kept (ev_id (f_event fr)) b (resolve b fr)"
  by (simp add: others_kept_def resolve_def calls_of_def)

lemma reject_kept: "others_kept (ev_id (f_event fr)) b (reject b fr)"
  by (simp add: others_kept_def reject_def calls_of_def Let_def)

lemma conclude_emit_begin_kept:
  "others_kept (next_event b) b (conclude (emit_begin h b t d src))
   \<and> next_event (conclude (emit_begin h b t d src)) = Suc (next_event b)"
proof -
  let ?ev = "\<lparr>ev_type = t, ev_data = d, ev_id = next_event b,
               ev_source = or_unknown src\<rparr>"
  let ?b1 = "b\<lparr>next_event := Suc (next_event b),
               eventHistory := add_to_history ?ev (eventHistory b),
               totalEvents := Suc (totalEvents b)\<rparr>"
  let ?fr = "\<lparr>f_event = ?ev,
            f_listeners = (case t of JStr s \<Rightarrow> events ?b1 s | _ \<Rightarrow> None),
            f_index = 0, f_phase = Exact, f_toRemove = [], f_results = [],
            f_errors = [], f_wset = wildcardListeners ?b1, f_windex = 0\<rparr>"
  have eb: "emit_begin h b t d src = exact_loop h ?b1 ?fr"
    by (simp add: emit_begin_def Let_def)
  have 1: "others_kept (next_event b) b ?b1" by (simp add: others_kept_def calls_of_def)
  have 2: "others_kept (next_event b) ?b1 (fst (exact_loop h ?b1 ?fr))
           \<and> next_event (fst (exact_loop h ?b1 ?fr)) = next_event ?b1"
    using exact_loop_kept [of ?fr ?b1 h] by simp
  obtain b2 r where br: "exact_loop h ?b1 ?fr = (b2, r)" by (cases "exact_loop h ?b1 ?fr")
  from 1 2 br have 3: "others_kept (next_event b) b b2" "next_event b2 = Suc (next_event b)"
    by (auto intro: others_kept_trans)
  show ?thesis
  proof (cases r)
    case Suspended
    with eb br 3 show ?thesis by (simp add: conclude_def)
  next
    case (Finished fr')
    with br exact_loop_frame [of h ?b1 ?fr fr'] have "ev_id (f_event fr') = next_event b" by simp
    with resolve_kept [of fr' b2] have "others_kept (next_event b) b2 (resolve b2 fr')" by simp
    with eb br 3 Finished show ?thesis
      by (auto simp: conclude_def resolve_def intro: others_kept_trans)
  next
    case (Failed fr')
    with br exact_loop_frame [of h ?b1 ?fr fr'] have "ev_id (f_event fr') = next_event b" by simp
    with reject_kept [of fr' b2] have "others_kept (next_event b) b2 (reject b2 fr')" by simp
    with eb br 3 Failed show ?thesis
      by (auto simp: conclude_def reject_def Let_def intro: others_kept_trans)
  qed
qed

lemma report_errors_kept:
  assumes "e < next_event b"
  shows "suspended (report_errors h b fr) e = suspended b e"
    and "settled (report_errors h b fr) e = settled b e"
    and "calls_of (report_errors h b fr) e = calls_of b e"
    and "sets (report_errors h b fr) = sets b"
    and "wildcardListeners (report_errors h b fr) = wildcardListeners b"
    and "next_event b \<le> next_event (report_errors h b fr)"
    and "next_listener (report_errors h b fr) = next_listener b"
  using assms conclude_emit_begin_kept [of b h "JStr ''system:error''"
      "ListenerErrors (ev_type (f_event fr)) (f_errors fr) (ev_id (f_event fr))" None]
  by (auto simp: report_errors_def others_kept_def)

lemma drive_done: "suspended b e = None \<Longrightarrow> drive n h b e = Some b"
  by (cases n) auto

lemma drive_step: "suspended b e \<noteq> None \<Longrightarrow> drive (Suc n) h b e = drive n h (resume h b e) e"
  by (cases "suspended b e") simp_all

lemma resume_wild:
  assumes "suspended b e = Some (fr, l, out)" and "f_phase fr = Wild"
  shows "resume h b e
           = finish h (wild_loop h b
               (case out of Returns v \<Rightarrow> fr\<lparr>f_results := f_results fr @ [v]\<rparr>
                | Throws x \<Rightarrow> fr\<lparr>f_errors := f_errors fr @ [(lid (config l), x)]\<rparr>))"
  using assms by (simp add: resume_def continue_emit_def split: outcome.splits)

lemma finish_Finished:
  assumes "ev_id (f_event fr) = e" and "e < next_event b"
  shows "suspended (finish h (b, Finished fr)) e = None"
    and "settled (finish h (b, Finished fr)) e = Some (Resolved (f_results fr))"
    and "calls_of (finish h (b, Finished fr)) e = calls_of b e"
    and "sets (finish h (b, Finished fr)) = sets b"
    and "wildcardListeners (finish h (b, Finished fr)) = wildcardListeners b"
  using assms report_errors_kept [of e b h fr]
  by (simp_all add: finish_def resolve_def calls_of_def)

lemma finish_Failed:
  assumes "ev_id (f_event fr) = e"
  shows "suspended (finish h (b, Failed fr)) e = None"
    and "settled (finish h (b, Failed fr)) e = Some Rejected"
    and "calls_of (finish h (b, Failed fr)) e = calls_of b e"
  using assms by (simp_all add: finish_def reject_def Let_def calls_of_def)

lemma wild_drive:
  assumes "f_phase fr = Wild" and "ev_id (f_event fr) = e" and "e < next_event b"
  shows "\<exists>b'. drive (length (deliverable h (ev_type (f_event fr))
                                (drop (f_windex fr) (sets b (f_wset fr)))))
                 h (finish h (wild_loop h b fr)) e = Some b'
          \<and> suspended b' e = None
          \<and> calls_of b' e = calls_of b e
                @ map (\<lambda>w. lid (config w))
                    (deliverable h (ev_type (f_event fr))
                       (drop (f_windex fr) (sets b (f_wset fr))))
          \<and> settled b' e = Some (
                if list_all (compiles h (ev_type (f_event fr)))
                     (drop (f_windex fr) (sets b (f_wset fr)))
                then Resolved (f_results fr
                  @ returned (map (\<lambda>w. call h (callback w) (f_event fr))
                      (deliverable h (ev_type (f_event fr))
                         (drop (f_windex fr) (sets b (f_wset fr))))))
                else Rejected)"
  using assms
proof (induction "length (sets b (f_wset fr)) - f_windex fr" arbitrary: b fr rule: less_induct)
  case less
  let ?t = "ev_type (f_event fr)"
  let ?ws = "sets b (f_wset fr)"
  let ?rest = "drop (f_windex fr) ?ws"
  show ?case
  proof (cases "next_wildcard h ?t ?rest (f_windex fr)")
    case Thrown
    then have none: "deliverable h ?t ?rest = []" and bad: "\<not> list_all (compiles h ?t) ?rest"
      using next_wildcard_Thrown [of h ?t ?rest "f_windex fr"] by simp_all
    from Thrown have wl: "wild_loop h b fr = (b, Failed fr)" by (simp add: wild_loop_def)
    show ?thesis
      using finish_Failed [OF less.prems(2), of h b] bad
      by (simp add: wl none drive_done)
  next
    case Exhausted
    then have none: "deliverable h ?t ?rest = []" and good: "list_all (compiles h ?t) ?rest"
      using next_wildcard_Exhausted [of h ?t ?rest "f_windex fr"] by simp_all
    from Exhausted have wl: "wild_loop h b fr = (b, Finished fr)" by (simp add: wild_loop_def)
    show ?thesis
      using finish_Finished [OF less.prems(2,3), of h] good
      by (simp add: wl none drive_done)
  next
    case (Deliver j w)
    from next_wildcard_Deliver [OF Deliver]
    have j: "f_windex fr \<le> j" "j - f_windex fr < length ?rest"
      and targets: "deliverable h ?t ?rest
                      = w # deliverable h ?t (drop (Suc (j - f_windex fr)) ?rest)"
      and comp: "list_all (compiles h ?t) ?rest
                   = list_all (compiles h ?t) (drop (Suc (j - f_windex fr)) ?rest)"
      by auto
    from j have jl: "j < length ?ws" by simp
    from j have ji [simp]: "j - f_windex fr + f_windex fr = j" by simp
    from j have dr: "drop (Suc (j - f_windex fr)) ?rest = drop (Suc j) ?ws" by simp
    define l where "l = \<lparr>callback = callback w, config = config w\<rparr>"
    define fr1 where "fr1 = fr\<lparr>f_windex := Suc j\<rparr>"
    define b1 where "b1 = suspend_on h b fr1 l"
    define out where "out = call h (callback w) (f_event fr)"
    define fr2 where "fr2 = (case out of Returns v \<Rightarrow> fr1\<lparr>f_results := f_results fr1 @ [v]\<rparr>
                | Throws x \<Rightarrow> fr1\<lparr>f_errors := f_errors fr1 @ [(lid (config l), x)]\<rparr>)"
    from Deliver have wl: "wild_loop h b fr = (b1, Suspended)"
      by (simp add: wild_loop_def b1_def fr1_def l_def)
    have sus: "suspended b1 e = Some (fr1, l, out)"
      using less.prems(2) by (simp add: b1_def fr1_def out_def executeListener_def l_def)
    have ph: "f_phase fr1 = Wild" using less.prems(1) by (simp add: fr1_def)
    have res: "resume h b1 e = finish h (wild_loop h b1 fr2)"
      using resume_wild [OF sus ph] by (simp add: fr2_def)
    have fr2: "f_phase fr2 = Wild" "ev_id (f_event fr2) = e" "f_event fr2 = f_event fr"
      "f_wset fr2 = f_wset fr" "f_windex fr2 = Suc j"
      "f_results fr2 = f_results fr @ returned [out]"
      using less.prems(1,2) by (auto simp: fr2_def fr1_def split: outcome.splits)
    have b1: "sets b1 = sets b" "next_event b1 = next_event b"
      "calls_of b1 e = calls_of b e @ [lid (config w)]"
      using less.prems(2) by (simp_all add: b1_def calls_of_suspend_on fr1_def l_def)
    have meas: "length (sets b1 (f_wset fr2)) - f_windex fr2 < length ?ws - f_windex fr"
      using jl j by (simp add: fr2 b1)
    have ne: "e < next_event b1" using less.prems(3) by (simp add: b1)
    from less.hyps [OF meas fr2(1,2) ne]
    obtain b' where b': "drive (length (deliverable h ?t (drop (Suc j) ?ws)))
                 h (finish h (wild_loop h b1 fr2)) e = Some b'"
      "suspended b' e = None"
      "calls_of b' e = calls_of b1 e
                @ map (\<lambda>w. lid (config w)) (deliverable h ?t (drop (Suc j) ?ws))"
      "settled b' e = Some (
                if list_all (compiles h ?t) (drop (Suc j) ?ws)
                then Resolved (f_results fr2
                  @ returned (map (\<lambda>w. call h (callback w) (f_event fr))
                      (deliverable h ?t (drop (Suc j) ?ws))))
                else Rejected)"
      by (auto simp: fr2 b1)
    have "drive (length (deliverable h ?t ?rest)) h (finish h (wild_loop h b fr)) e
            = drive (length (deliverable h ?t (drop (Suc j) ?ws))) h (resume h b1 e) e"
      using sus by (simp add: wl finish_def targets dr)
    with b' show ?thesis
      by (simp add: res targets comp dr b1 fr2 out_def returned_single)
  qed
qed

lemma resume_exact:
  assumes "suspended b e = Some (fr, l, out)" and "f_phase fr = Exact"
  shows "resume h b e
           = finish h (exact_loop h b
               (case out of
                  Returns v \<Rightarrow> fr\<lparr>f_results := f_results fr @ [v],
                                   f_toRemove := (if once (config l) then f_toRemove fr @ [l]
                                                  else f_toRemove fr)\<rparr>
                | Throws x \<Rightarrow> fr\<lparr>f_errors := f_errors fr @ [(lid (config l), x)]\<rparr>))"
  using assms by (simp add: resume_def continue_emit_def split: outcome.splits)

lemma exact_drive:
  assumes "f_phase fr = Exact" and "ev_id (f_event fr) = e" and "e < next_event b"
  shows "\<exists>b'. drive (length (drop (f_index fr) (frame_array b fr))
                     + length (deliverable h (ev_type (f_event fr))
                                (sets b (wildcardListeners b))))
                 h (finish h (exact_loop h b fr)) e = Some b'
          \<and> suspended b' e = None
          \<and> calls_of b' e = calls_of b e
                @ map (\<lambda>l. lid (config l)) (drop (f_index fr) (frame_array b fr))
                @ map (\<lambda>w. lid (config w))
                    (deliverable h (ev_type (f_event fr)) (sets b (wildcardListeners b)))
          \<and> settled b' e = Some (
                if list_all (compiles h (ev_type (f_event fr))) (sets b (wildcardListeners b))
                then Resolved (f_results fr
                  @ returned (map (\<lambda>l. call h (callback l) (f_event fr))
                                (drop (f_index fr) (frame_array b fr)))
                  @ returned (map (\<lambda>w. call h (callback w) (f_event fr))
                      (deliverable h (ev_type (f_event fr))
                         (sets b (wildcardListeners b)))))
                else Rejected)"
  using assms
proof (induction "length (frame_array b fr) - f_index fr" arbitrary: b fr rule: less_induct)
  case less
  let ?t = "ev_type (f_event fr)"
  let ?ls = "frame_array b fr"
  let ?W = "deliverable h ?t (sets b (wildcardListeners b))"
  let ?C = "list_all (compiles h ?t) (sets b (wildcardListeners b))"
  show ?case
  proof (cases "f_index fr < length ?ls")
    case False
    define b1 where "b1 = remove_once b fr ?ls"
    define fr1 where "fr1 = fr\<lparr>f_phase := Wild, f_wset := wildcardListeners b1, f_windex := 0\<rparr>"
    from False have el: "exact_loop h b fr = wild_loop h b1 fr1"
      by (simp add: exact_loop_def Let_def frame_array_def b1_def fr1_def)
    have b1: "sets b1 = sets b" "wildcardListeners b1 = wildcardListeners b"
      "next_event b1 = next_event b" "calls_of b1 e = calls_of b e"
      by (simp_all add: b1_def)
    have fr1: "f_phase fr1 = Wild" "ev_id (f_event fr1) = e" "f_event fr1 = f_event fr"
      "f_windex fr1 = 0" "f_wset fr1 = wildcardListeners b" "f_results fr1 = f_results fr"
      using less.prems(2) by (simp_all add: fr1_def b1)
    have ne: "e < next_event b1" using less.prems(3) by (simp add: b1)
    from wild_drive [OF fr1(1,2) ne, of h] False
    show ?thesis by (simp add: el fr1 b1 cong: if_cong)
  next
    case True
    define l where "l = ?ls ! f_index fr"
    define fr1 where "fr1 = fr\<lparr>f_index := Suc (f_index fr)\<rparr>"
    define b1 where "b1 = suspend_on h b fr1 l"
    define out where "out = call h (callback l) (f_event fr)"
    define fr2 where "fr2 = (case out of
                  Returns v \<Rightarrow> fr1\<lparr>f_results := f_results fr1 @ [v],
                                   f_toRemove := (if once (config l) then f_toRemove fr1 @ [l]
                                                  else f_toRemove fr1)\<rparr>
                | Throws x \<Rightarrow> fr1\<lparr>f_errors := f_errors fr1 @ [(lid (config l), x)]\<rparr>)"
    from True have el: "exact_loop h b fr = (b1, Suspended)"
      by (simp add: exact_loop_def Let_def frame_array_def b1_def fr1_def l_def)
    have sus: "suspended b1 e = Some (fr1, l, out)"
      using less.prems(2) by (simp add: b1_def fr1_def out_def executeListener_def)
    have ph: "f_phase fr1 = Exact" using less.prems(1) by (simp add: fr1_def)
    have res: "resume h b1 e = finish h (exact_loop h b1 fr2)"
      using resume_exact [OF sus ph] by (simp add: fr2_def)
    have fr2: "f_phase fr2 = Exact" "ev_id (f_event fr2) = e" "f_event fr2 = f_event fr"
      "f_listeners fr2 = f_listeners fr" "f_index fr2 = Suc (f_index fr)"
      "f_results fr2 = f_results fr @ returned [out]"
      using less.prems(1,2) by (auto simp: fr2_def fr1_def split: outcome.splits)
    have b1: "sets b1 = sets b" "wildcardListeners b1 = wildcardListeners b"
      "next_event b1 = next_event b" "arrays b1 = arrays b"
      "calls_of b1 e = calls_of b e @ [lid (config l)]"
      using less.prems(2) by (simp_all add: b1_def calls_of_suspend_on fr1_def)
    have arr: "frame_array b1 fr2 = ?ls"
      by (simp add: frame_array_def fr2 b1 split: option.splits)
    have dr: "drop (f_index fr) ?ls = l # drop (Suc (f_index fr)) ?ls"
      using True by (simp add: l_def Cons_nth_drop_Suc)
    have meas: "length (frame_array b1 fr2) - f_index fr2 < length ?ls - f_index fr"
      using True by (simp add: arr fr2)
    have ne: "e < next_event b1" using less.prems(3) by (simp add: b1)
    from less.hyps [OF meas fr2(1,2) ne]
    obtain b' where b': "drive (length (drop (Suc (f_index fr)) ?ls) + length ?W)
                 h (finish h (exact_loop h b1 fr2)) e = Some b'"
      "suspended b' e = None"
      "calls_of b' e = calls_of b1 e
                @ map (\<lambda>l. lid (config l)) (drop (Suc (f_index fr)) ?ls)
                @ map (\<lambda>w. lid (config w)) ?W"
      "settled b' e = Some (
                if ?C
                then Resolved (f_results fr2
                  @ returned (map (\<lambda>l. call h (callback l) (f_event fr))
                                (drop (Suc (f_index fr)) ?ls))
                  @ returned (map (\<lambda>w. call h (callback w) (f_event fr)) ?W))
                else Rejected)"
      by (auto simp: fr2 b1 arr)
    have len: "length (drop (f_index fr) ?ls) = Suc (length (drop (Suc (f_index fr)) ?ls))"
      by (subst dr) simp
    have fin: "finish h (exact_loop h b fr) = b1" by (simp add: el finish_def)
    have "drive (length (drop (f_index fr) ?ls) + length ?W) h b1 e
            = drive (Suc (length (drop (Suc (f_index fr)) ?ls) + length ?W)) h b1 e"
      by (simp only: len add_Suc)
    also have "\<dots> = drive (length (drop (Suc (f_index fr)) ?ls) + length ?W) h (resume h b1 e) e"
      by (rule drive_step) (simp add: sus)
    finally have "drive (length (drop (f_index fr) ?ls) + length ?W) h
                    (finish h (exact_loop h b fr)) e = Some b'"
      using b'(1) by (simp only: fin res)
    moreover have "calls_of b' e = calls_of b e
                @ map (\<lambda>l. lid (config l)) (drop (f_index fr) ?ls)
                @ map (\<lambda>w. lid (config w)) ?W"
      by (subst dr) (simp add: b'(3) b1)
    moreover have "settled b' e = Some (
                if ?C
                then Resolved (f_results fr
                  @ returned (map (\<lambda>l. call h (callback l) (f_event fr))
                                (drop (f_index fr) ?ls))
                  @ returned (map (\<lambda>w. call h (callback w) (f_event fr)) ?W))
                else Rejected)"
    proof -
      have "returned (map (\<lambda>l. call h (callback l) (f_event fr)) (drop (f_index fr) ?ls))
              = returned [out] @ returned (map (\<lambda>l. call h (callback l) (f_event fr))
                                             (drop (Suc (f_index fr)) ?ls))"
        by (subst dr) (simp add: out_def returned_single)
      then show ?thesis by (simp add: b'(4) fr2)
    qed
    ultimately show ?thesis using b'(2) by blast
  qed
qed

subsection \<open>Invariants of the bus\<close>

lemma findIndex_None: "findIndex P xs = None \<longleftrightarrow> (\<forall>x \<in> set xs. \<not> P x)"
  by (induction xs) auto

lemma findIndex_Some:
  "findIndex P xs = Some i \<Longrightarrow>
     i < length xs \<and> P (xs ! i) \<and> (\<forall>x \<in> set (take i xs). \<not> P x)"
proof (induction xs arbitrary: i)
  case Nil
  then show ?case by simp
next
  case (Cons x xs)
  show ?case
  proof (cases "P x")
    case True
    with Cons.prems show ?thesis by simp
  next
    case False
    with Cons.prems obtain j where j: "findIndex P xs = Some j" "i = Suc j" by auto
    from Cons.IH [OF j(1)] False j(2) show ?thesis by auto
  qed
qed

lemma insert_listener_sorted:
  assumes "sorted_wrt before ls" and "\<forall>x \<in> set ls. lid (config x) < lid (config l)"
  shows "sorted_wrt before (insert_listener l ls)"
proof (cases "findIndex (\<lambda>x. priority (config x) < priority (config l)) ls")
  case None
  then have "\<forall>x \<in> set ls. before x l"
    using assms(2) by (auto simp: findIndex_None before_def)
  with assms(1) None show ?thesis
    by (simp add: insert_listener_def sorted_wrt_append)
next
  case (Some i)
  from findIndex_Some [OF Some] have i: "i < length ls"
    and low: "priority (config (ls ! i)) < priority (config l)"
    and high: "\<forall>x \<in> set (take i ls). \<not> priority (config x) < priority (config l)"
    by auto
  have split: "ls = take i ls @ drop i ls" by simp
  from assms(1) have s: "sorted_wrt before (take i ls)" "sorted_wrt before (drop i ls)"
    and cross: "\<forall>x \<in> set (take i ls). \<forall>y \<in> set (drop i ls). before x y"
    by (metis split sorted_wrt_append)+
  have hd: "drop i ls = ls ! i # drop (Suc i) ls" using i by (simp add: Cons_nth_drop_Suc)
  have after: "\<forall>y \<in> set (drop i ls). before l y"
  proof
    fix y assume y: "y \<in> set (drop i ls)"
    have "priority (config y) \<le> priority (config (ls ! i))"
    proof (cases "y = ls ! i")
      case True
      then show ?thesis by simp
    next
      case False
      with y hd have "y \<in> set (drop (Suc i) ls)" by auto
      with s(2) hd have "before (ls ! i) y" by (metis sorted_wrt.simps(2))
      then show ?thesis by (auto simp: before_def)
    qed
    with low show "before l y" by (simp add: before_def)
  qed
  have pre: "\<forall>x \<in> set (take i ls). before x l"
  proof
    fix x assume x: "x \<in> set (take i ls)"
    then have "x \<in> set ls" by (rule in_set_takeD)
    with assms(2) high x show "before x l" by (auto simp: before_def)
  qed
  from s cross after pre Some show ?thesis
    by (simp add: insert_listener_def sorted_wrt_append)
qed

lemma set_insert_listener: "set (insert_listener l ls) = insert l (set ls)"
proof (cases "findIndex (\<lambda>x. priority (config x) < priority (config l)) ls")
  case None
  then show ?thesis by (simp add: insert_listener_def)
next
  case (Some i)
  have "set (take i ls) \<union> set (drop i ls) = set ls" by (metis append_take_drop_id set_append)
  with Some show ?thesis by (auto simp: insert_listener_def)
qed

lemma sorted_ok_on: "sorted_ok b \<Longrightarrow> sorted_ok (on_str b t f opts)"
  unfolding sorted_ok_def
proof (intro allI)
  fix a
  assume ok: "\<forall>a. sorted_wrt before (arrays b a)
          \<and> (\<forall>l \<in> set (arrays b a). lid (config l) < next_listener b)
          \<and> sorted_wrt earlier (sets b a)
          \<and> (\<forall>w \<in> set (sets b a). lid (config w) < next_listener b)"
  let ?l = "\<lparr>callback = f, config = make_config b opts\<rparr>"
  have ins: "sorted_wrt before (insert_listener ?l (arrays b x))" for x
    using ok by (intro insert_listener_sorted) (auto simp: make_config_def)
  have ins0: "sorted_wrt before (insert_listener ?l [])"
    by (simp add: insert_listener_def)
  show "sorted_wrt before (arrays (on_str b t f opts) a)
          \<and> (\<forall>l \<in> set (arrays (on_str b t f opts) a). lid (config l) < next_listener (on_str b t f opts))
          \<and> sorted_wrt earlier (sets (on_str b t f opts) a)
          \<and> (\<forall>w \<in> set (sets (on_str b t f opts) a). lid (config w) < next_listener (on_str b t f opts))"
  proof (cases "CHR ''*'' \<in> set t")
    case True
    with ok show ?thesis
      by (auto simp: on_str_def Let_def sorted_wrt_append earlier_def make_config_def less_Suc_eq)
  next
    case False
    show ?thesis
    proof (cases "events b t")
      case None
      with False ok ins0 show ?thesis
        by (auto simp: on_str_def Let_def bucket_for_def set_insert_listener make_config_def
            less_Suc_eq insert_listener_def)
    next
      case (Some x)
      with False ok ins [of x] show ?thesis
        by (auto simp: on_str_def Let_def bucket_for_def set_insert_listener make_config_def
            less_Suc_eq)
    qed
  qed
qed

lemma sorted_ok_off: "sorted_ok b \<Longrightarrow> sorted_ok (off b t f)"
  by (auto simp: sorted_ok_def off_def Let_def sorted_wrt_filter split: option.splits)

lemma frames_okD:
  "frames_ok b \<Longrightarrow> suspended b e = Some (fr, l, out) \<Longrightarrow> ev_id (f_event fr) = e \<and> frame_ok b fr"
  by (fastforce simp: frames_ok_def frame_ok_def)

lemma sorted_ok_cong:
  assumes "sorted_ok b" and "arrays b' = arrays b" and "sets b' = sets b"
    and "next_listener b' = next_listener b"
  shows "sorted_ok b'"
  using assms by (simp add: sorted_ok_def)

lemma frame_array_sorted:
  assumes "sorted_ok b"
  shows "sorted_wrt before (frame_array b fr)"
    and "\<forall>l \<in> set (frame_array b fr). lid (config l) < next_listener b"
  using assms by (auto simp: sorted_ok_def frame_array_def split: option.splits)

lemma bus_ok_suspend_on:
  assumes "bus_ok b" and "frame_ok b fr"
  shows "bus_ok (suspend_on h b fr l)"
proof -
  have "sorted_ok (suspend_on h b fr l)"
    using assms(1) by (auto simp: bus_ok_def intro: sorted_ok_cong)
  moreover have "frames_ok (suspend_on h b fr l)"
    using assms by (auto simp: bus_ok_def frames_ok_def frame_ok_def)
  ultimately show ?thesis by (simp add: bus_ok_def)
qed

lemma remove_once_cases:
  "remove_once b fr ls = b
   \<or> (\<exists>t. remove_once b fr ls = b\<lparr>events := (events b)(t := None)\<rparr>)
   \<or> (\<exists>t. remove_once b fr ls
            = b\<lparr>events := (events b)(t \<mapsto> next_addr b),
                 arrays := (arrays b)(next_addr b := filter (\<lambda>l. l \<notin> set (f_toRemove fr)) ls),
                 next_addr := Suc (next_addr b)\<rparr>)"
  by (auto simp: remove_once_def Let_def split: jsval.splits)

lemma bus_ok_remove_once:
  assumes "bus_ok b" and "sorted_wrt before ls"
    and "\<forall>l \<in> set ls. lid (config l) < next_listener b"
  shows "bus_ok (remove_once b fr ls)"
proof -
  from remove_once_cases [of b fr ls]
  consider "remove_once b fr ls = b"
    | t where "remove_once b fr ls = b\<lparr>events := (events b)(t := None)\<rparr>"
    | t where "remove_once b fr ls
            = b\<lparr>events := (events b)(t \<mapsto> next_addr b),
                 arrays := (arrays b)(next_addr b := filter (\<lambda>l. l \<notin> set (f_toRemove fr)) ls),
                 next_addr := Suc (next_addr b)\<rparr>"
    by blast
  then show ?thesis
  proof cases
    case 1
    with assms(1) show ?thesis by simp
  next
    case 2
    with assms(1) show ?thesis
      by (auto simp: bus_ok_def sorted_ok_def frames_ok_def frame_ok_def)
  next
    case 3
    have "sorted_ok (remove_once b fr ls)"
      using assms by (auto simp: 3 bus_ok_def sorted_ok_def sorted_wrt_filter)
    moreover have "frames_ok (remove_once b fr ls)"
      using assms(1) by (auto simp: 3 bus_ok_def frames_ok_def frame_ok_def less_Suc_eq)
    ultimately show ?thesis by (simp add: bus_ok_def)
  qed
qed

lemma frame_ok_remove_once: "frame_ok b fr' \<Longrightarrow> frame_ok (remove_once b fr ls) fr'"
  using remove_once_cases [of b fr ls] by (auto simp: frame_ok_def less_Suc_eq)

lemma bus_ok_wild_loop:
  assumes "bus_ok b" and "frame_ok b fr"
  shows "bus_ok (fst (wild_loop h b fr))"
proof (cases "next_wildcard h (ev_type (f_event fr))
                (drop (f_windex fr) (sets b (f_wset fr))) (f_windex fr)")
  case (Deliver j w)
  have "frame_ok b (fr\<lparr>f_windex := Suc j\<rparr>)" using assms(2) by (simp add: frame_ok_def)
  from bus_ok_suspend_on [OF assms(1) this] Deliver show ?thesis
    by (simp add: wild_loop_def)
qed (use assms in \<open>simp_all add: wild_loop_def\<close>)

lemma bus_ok_exact_loop:
  assumes "bus_ok b" and "frame_ok b fr"
  shows "bus_ok (fst (exact_loop h b fr))"
proof (cases "f_index fr < length (frame_array b fr)")
  case True
  have "frame_ok b (fr\<lparr>f_index := Suc (f_index fr)\<rparr>)" using assms(2) by (simp add: frame_ok_def)
  from bus_ok_suspend_on [OF assms(1) this] True show ?thesis
    by (simp add: exact_loop_def Let_def frame_array_def)
next
  case False
  let ?b1 = "remove_once b fr (frame_array b fr)"
  have so: "sorted_ok b" using assms(1) by (simp add: bus_ok_def)
  have 1: "bus_ok ?b1"
    using bus_ok_remove_once [OF assms(1) frame_array_sorted [OF so]] .
  have "frame_ok ?b1 fr" using assms(2) by (rule frame_ok_remove_once)
  then have 2: "frame_ok ?b1 (fr\<lparr>f_phase := Wild, f_wset := wildcardListeners ?b1, f_windex := 0\<rparr>)"
    by (simp add: frame_ok_def)
  from bus_ok_wild_loop [OF 1 2] False show ?thesis
    by (simp add: exact_loop_def Let_def frame_array_def)
qed

lemma bus_ok_resolve: "bus_ok b \<Longrightarrow> bus_ok (resolve b fr)"
  by (auto simp: bus_ok_def sorted_ok_def frames_ok_def frame_ok_def resolve_def)

lemma bus_ok_reject: "bus_ok b \<Longrightarrow> bus_ok (reject b fr)"
  by (auto simp: bus_ok_def sorted_ok_def frames_ok_def frame_ok_def reject_def Let_def)

lemma bus_ok_conclude: "bus_ok (fst br) \<Longrightarrow> bus_ok (conclude br)"
  by (cases br) (auto simp: conclude_def bus_ok_resolve bus_ok_reject split: step_result.splits)

lemma bus_ok_emit_begin:
  assumes "bus_ok b"
  shows "bus_ok (fst (emit_begin h b t d src))"
proof -
  let ?ev = "\<lparr>ev_type = t, ev_data = d, ev_id = next_event b,
               ev_source = or_unknown src\<rparr>"
  let ?b1 = "b\<lparr>next_event := Suc (next_event b),
               eventHistory := add_to_history ?ev (eventHistory b),
               totalEvents := Suc (totalEvents b)\<rparr>"
  let ?fr = "\<lparr>f_event = ?ev,
            f_listeners = (case t of JStr s \<Rightarrow> events ?b1 s | _ \<Rightarrow> None),
            f_index = 0, f_phase = Exact, f_toRemove = [], f_results = [],
            f_errors = [], f_wset = wildcardListeners ?b1, f_windex = 0\<rparr>"
  have eb: "emit_begin h b t d src = exact_loop h ?b1 ?fr"
    by (simp add: emit_begin_def Let_def)
  have 1: "bus_ok ?b1"
    using assms by (auto simp: bus_ok_def sorted_ok_def frames_ok_def frame_ok_def less_Suc_eq)
  have 2: "frame_ok ?b1 ?fr"
    using assms by (auto simp: bus_ok_def frames_ok_def frame_ok_def split: jsval.splits)
  from bus_ok_exact_loop [OF 1 2] show ?thesis by (simp only: eb)
qed

lemma bus_ok_report_errors: "bus_ok b \<Longrightarrow> bus_ok (report_errors h b fr)"
  by (simp add: report_errors_def bus_ok_conclude bus_ok_emit_begin)

lemma bus_ok_finish: "bus_ok (fst br) \<Longrightarrow> bus_ok (finish h br)"
  by (cases br)
     (auto simp: finish_def bus_ok_resolve bus_ok_reject bus_ok_report_errors
       split: step_result.splits)

lemma bus_ok_emit: "bus_ok b \<Longrightarrow> bus_ok (emit h b t d src)"
  by (simp add: emit_def bus_ok_finish bus_ok_emit_begin)

lemma bus_ok_resume:
  assumes "bus_ok b"
  shows "bus_ok (resume h b e)"
proof (cases "suspended b e")
  case None
  with assms show ?thesis by (simp add: resume_def)
next
  case (Some s)
  obtain fr l out where s: "s = (fr, l, out)" by (cases s)
  with Some assms have fo: "frame_ok b fr" by (auto simp: bus_ok_def dest: frames_okD)
  have fo': "frame_ok b (fr\<lparr>f_results := rs, f_toRemove := tr\<rparr>)"
            "frame_ok b (fr\<lparr>f_errors := es\<rparr>)" "frame_ok b (fr\<lparr>f_results := rs\<rparr>)"
    for rs tr es using fo by (simp_all add: frame_ok_def)
  have "bus_ok (fst (continue_emit h b (fr, l, out)))"
    by (cases "f_phase fr"; cases out)
       (simp_all add: continue_emit_def bus_ok_exact_loop bus_ok_wild_loop assms fo')
  with Some s show ?thesis by (simp add: resume_def bus_ok_finish)
qed

lemma bus_ok_on: "bus_ok b \<Longrightarrow> bus_ok (on_str b t f opts)"
proof -
  assume ok: "bus_ok b"
  then have "sorted_ok (on_str b t f opts)" by (simp add: bus_ok_def sorted_ok_on)
  moreover have "frames_ok (on_str b t f opts)"
    using ok
    by (auto simp: bus_ok_def frames_ok_def frame_ok_def on_str_def Let_def bucket_for_def
        less_Suc_eq split: option.splits if_splits)
  ultimately show ?thesis by (simp add: bus_ok_def)
qed

lemma bus_ok_off: "bus_ok b \<Longrightarrow> bus_ok (off b t f)"
proof -
  assume ok: "bus_ok b"
  then have "sorted_ok (off b t f)" by (simp add: bus_ok_def sorted_ok_off)
  moreover have "frames_ok (off b t f)"
    using ok
    by (auto simp: bus_ok_def frames_ok_def frame_ok_def off_def Let_def
        less_Suc_eq split: option.splits if_splits)
  ultimately show ?thesis by (simp add: bus_ok_def)
qed

lemma bus_ok_new: "bus_ok new_bus"
  by (simp add: bus_ok_def sorted_ok_def frames_ok_def new_bus_def)

lemma bus_ok_act: "bus_ok b \<Longrightarrow> bus_ok (act h b a)"
  by (cases a) (simp_all add: bus_ok_emit bus_ok_resume bus_ok_on bus_ok_off)

lemma bus_ok_run: "bus_ok b \<Longrightarrow> bus_ok (run h b as)"
  unfolding run_def by (induction as arbitrary: b) (simp_all add: bus_ok_act)

subsection \<open>The order of the calls, and listeners that throw\<close>

lemma emit_drive:
  "\<exists>b'. drive (length (exact_listeners b t) + length (wildcard_listeners h b t)) h
                 (emit h b t d src) (next_event b) = Some b'
          \<and> suspended b' (next_event b) = None
          \<and> calls_of b' (next_event b) = calls_of b (next_event b)
                @ map (\<lambda>l. lid (config l)) (exact_listeners b t)
                @ map (\<lambda>w. lid (config w)) (wildcard_listeners h b t)
          \<and> settled b' (next_event b) = Some (
                if list_all (compiles h t) (sets b (wildcardListeners b))
                then Resolved (
                  returned (map (\<lambda>l. call h (callback l) (envelope b t d src))
                              (exact_listeners b t))
                  @ returned (map (\<lambda>w. call h (callback w) (envelope b t d src))
                                (wildcard_listeners h b t)))
                else Rejected)"
proof -
  let ?ev = "envelope b t d src"
  let ?b1 = "b\<lparr>next_event := Suc (next_event b),
               eventHistory := add_to_history ?ev (eventHistory b),
               totalEvents := Suc (totalEvents b)\<rparr>"
  let ?fr = "\<lparr>f_event = ?ev,
            f_listeners = (case t of JStr s \<Rightarrow> events ?b1 s | _ \<Rightarrow> None),
            f_index = 0, f_phase = Exact, f_toRemove = [], f_results = [],
            f_errors = [], f_wset = wildcardListeners ?b1, f_windex = 0\<rparr>"
  have em: "emit h b t d src = finish h (exact_loop h ?b1 ?fr)"
    by (simp add: emit_def emit_begin_def Let_def envelope_def cong: jsval.case_cong)
  have arr: "frame_array ?b1 ?fr = exact_listeners b t"
    by (simp add: frame_array_def exact_listeners_def split: jsval.splits option.splits)
  have 1: "f_phase ?fr = Exact" "ev_id (f_event ?fr) = next_event b" "next_event b < next_event ?b1"
    by (simp_all add: envelope_def)
  have ty: "ev_type (f_event ?fr) = t" by (simp add: envelope_def)
  have c: "calls_of ?b1 (next_event b) = calls_of b (next_event b)" by (simp add: calls_of_def)
  from exact_drive [OF 1, of h]
  show ?thesis
    unfolding em arr ty wildcard_listeners_def c by (simp cong: if_cong)
qed

lemma calls_of_fresh: "frames_ok b \<Longrightarrow> calls_of b (next_event b) = []"
  by (auto simp: frames_ok_def calls_of_def filter_empty_conv)

lemma sorted_listeners:
  assumes "sorted_ok b"
  shows "sorted_wrt before (exact_listeners b t)"
    and "sorted_wrt earlier (wildcard_listeners h b t)"
  using assms
  by (auto simp: sorted_ok_def exact_listeners_def wildcard_listeners_def sorted_wrt_deliverable
      split: jsval.splits option.splits)

text \<open>
  Claim C3. In a bus reached by any interleaving of calls and resumptions, an emission that
  runs alone calls the listeners of its event type first, in the order \<open>before\<close>
  (descending priority, registration order among equal priorities), and only then wildcard
  listeners, in the order of registration; it finishes after one resumption for each of them.
  The wildcard listeners called are those whose pattern matches; all of them, when every
  pattern compiles.
\<close>

theorem emission_order:
  assumes "b = run h new_bus acts"
  shows "(\<exists>b'. drive (length (exact_listeners b t) + length (wildcard_listeners h b t)) h
                 (emit h b t d src) (next_event b) = Some b'
          \<and> calls_of b' (next_event b)
              = map (\<lambda>l. lid (config l)) (exact_listeners b t)
                @ map (\<lambda>w. lid (config w)) (wildcard_listeners h b t))
         \<and> sorted_wrt before (exact_listeners b t)
         \<and> sorted_wrt earlier (wildcard_listeners h b t)
         \<and> list_all (matches h t) (wildcard_listeners h b t)
         \<and> (list_all (compiles h t) (sets b (wildcardListeners b)) \<longrightarrow>
              wildcard_listeners h b t = filter (matches h t) (sets b (wildcardListeners b)))"
proof -
  have ok: "bus_ok b" unfolding assms(1) by (rule bus_ok_run [OF bus_ok_new])
  then have so: "sorted_ok b" and fo: "frames_ok b" by (simp_all add: bus_ok_def)
  from emit_drive [of b t h d src] calls_of_fresh [OF fo]
  have "\<exists>b'. drive (length (exact_listeners b t) + length (wildcard_listeners h b t)) h
                 (emit h b t d src) (next_event b) = Some b'
          \<and> calls_of b' (next_event b)
              = map (\<lambda>l. lid (config l)) (exact_listeners b t)
                @ map (\<lambda>w. lid (config w)) (wildcard_listeners h b t)"
    by auto
  moreover have "list_all (matches h t) (wildcard_listeners h b t)"
    unfolding wildcard_listeners_def by (rule deliverable_matches)
  moreover have "list_all (compiles h t) (sets b (wildcardListeners b)) \<longrightarrow>
              wildcard_listeners h b t = filter (matches h t) (sets b (wildcardListeners b))"
    unfolding wildcard_listeners_def by (simp add: deliverable_filter)
  ultimately show ?thesis
    using sorted_listeners(1) [OF so, of t] sorted_listeners(2) [OF so, of h t] by blast
qed

theorem emission_order_witness:
  "priority_bus = run example_host new_bus
     [On ''note:added'' 2 (with_priority 5), On ''note:added'' 1 (with_priority 10),
      On ''*'' 3 plain]
   \<and> list_all (compiles example_host (JStr ''note:added''))
         (sets priority_bus (wildcardListeners priority_bus))
   \<and> (\<exists>b'. drive (length (exact_listeners priority_bus (JStr ''note:added''))
                     + length (wildcard_listeners example_host priority_bus (JStr ''note:added'')))
                 example_host
                 (emit example_host priority_bus (JStr ''note:added'') (Data 0) None)
                 (next_event priority_bus) = Some b'
          \<and> calls_of b' (next_event priority_bus)
              = map (\<lambda>l. lid (config l)) (exact_listeners priority_bus (JStr ''note:added''))
                @ map (\<lambda>w. lid (config w))
                    (wildcard_listeners example_host priority_bus (JStr ''note:added'')))
   \<and> sorted_wrt before (exact_listeners priority_bus (JStr ''note:added''))
   \<and> sorted_wrt earlier (wildcard_listeners example_host priority_bus (JStr ''note:added''))
   \<and> wildcard_listeners example_host priority_bus (JStr ''note:added'')
       = filter (matches example_host (JStr ''note:added''))
           (sets priority_bus (wildcardListeners priority_bus))
   \<and> map (\<lambda>l. (callback l, priority (config l), lid (config l)))
         (exact_listeners priority_bus (JStr ''note:added'')) = [(1, 10, 1), (2, 5, 0)]
   \<and> map (\<lambda>w. (callback w, lid (config w)))
         (wildcard_listeners example_host priority_bus (JStr ''note:added'')) = [(3, 2)]
   \<and> calls_of (the (drive 3 example_host
                       (emit example_host priority_bus (JStr ''note:added'') (Data 0) None) 0)) 0
       = [1, 0, 2]"
proof -
  have c: "list_all (compiles example_host (JStr ''note:added''))
             (sets priority_bus (wildcardListeners priority_bus))"
    by code_simp
  have e: "map (\<lambda>l. (callback l, priority (config l), lid (config l)))
         (exact_listeners priority_bus (JStr ''note:added'')) = [(1, 10, 1), (2, 5, 0)]"
    by code_simp
  have w: "map (\<lambda>w. (callback w, lid (config w)))
         (wildcard_listeners example_host priority_bus (JStr ''note:added'')) = [(3, 2)]"
    by code_simp
  have r: "calls_of (the (drive 3 example_host
                       (emit example_host priority_bus (JStr ''note:added'') (Data 0) None) 0)) 0
       = [1, 0, 2]"
    by code_simp
  from emission_order [OF priority_bus_def, of "JStr ''note:added''" "Data 0" None]
    priority_bus_def c e w r
  show ?thesis by blast
qed

text \<open>
  Claim C6, as it is stated, fails: \<open>emit\<close> does not look at the type of its first
  argument (only \<open>on\<close> checks it, line 60). A publish with the number 42 as type builds
  the envelope, finds no listener and resolves with no result.
\<close>

theorem publish_with_a_number_resolves:
  "settled (emit example_host new_bus (JNum 42) (Data 0) None) 0 = Some (Resolved [])
   \<and> map ev_type (eventHistory (emit example_host new_bus (JNum 42) (Data 0) None))
       = [JNum 42]"
  by code_simp

text \<open>
  Claim C6, amended. \<open>emit\<close> does not check its type argument, and a listener that throws
  neither rejects the publish nor stops the delivery. For every bus and every type, string
  or not, an emission that runs alone calls every listener of the type and then the matching
  wildcard listeners, whether one of them threw or not. Its promise is rejected exactly when
  the test of a wildcard pattern throws (the pattern is not a regular expression); otherwise
  it is resolved with the values of the listeners that returned.
\<close>

theorem listener_errors_are_isolated:
  "\<exists>b'. drive (length (exact_listeners b t) + length (wildcard_listeners h b t)) h
                 (emit h b t d src) (next_event b) = Some b'
          \<and> calls_of b' (next_event b) = calls_of b (next_event b)
                @ map (\<lambda>l. lid (config l)) (exact_listeners b t)
                @ map (\<lambda>w. lid (config w)) (wildcard_listeners h b t)
          \<and> settled b' (next_event b) = Some (
                if list_all (compiles h t) (sets b (wildcardListeners b))
                then Resolved (
                  returned (map (\<lambda>l. call h (callback l) (envelope b t d src))
                              (exact_listeners b t))
                  @ returned (map (\<lambda>w. call h (callback w) (envelope b t d src))
                                (wildcard_listeners h b t)))
                else Rejected)"
  using emit_drive [of b t h d src] by blast

theorem listener_errors_are_isolated_witness:
  "(\<exists>b'. drive (length (exact_listeners throwing_bus (JStr ''x''))
                     + length (wildcard_listeners example_host throwing_bus (JStr ''x'')))
                 example_host
                 (emit example_host throwing_bus (JStr ''x'') (Data 0) None)
                 (next_event throwing_bus) = Some b'
          \<and> calls_of b' (next_event throwing_bus) = calls_of throwing_bus (next_event throwing_bus)
                @ map (\<lambda>l. lid (config l)) (exact_listeners throwing_bus (JStr ''x''))
                @ map (\<lambda>w. lid (config w)) (wildcard_listeners example_host throwing_bus (JStr ''x''))
          \<and> settled b' (next_event throwing_bus) = Some (
                if list_all (compiles example_host (JStr ''x''))
                     (sets throwing_bus (wildcardListeners throwing_bus))
                then Resolved (
                  returned (map (\<lambda>l. call example_host (callback l)
                                         (envelope throwing_bus (JStr ''x'') (Data 0) None))
                              (exact_listeners throwing_bus (JStr ''x'')))
                  @ returned (map (\<lambda>w. call example_host (callback w)
                                           (envelope throwing_bus (JStr ''x'') (Data 0) None))
                                (wildcard_listeners example_host throwing_bus (JStr ''x''))))
                else Rejected))
   \<and> map (\<lambda>l. call example_host (callback l) (envelope throwing_bus (JStr ''x'') (Data 0) None))
         (exact_listeners throwing_bus (JStr ''x'')) = [Throws 1, Returns 8]
   \<and> calls_of (the (drive 2 example_host
                       (emit example_host throwing_bus (JStr ''x'') (Data 0) None) 0)) 0
       = [0, 1]
   \<and> settled (the (drive 2 example_host
                       (emit example_host throwing_bus (JStr ''x'') (Data 0) None) 0)) 0
       = Some (Resolved [8])"
proof -
  have o: "map (\<lambda>l. call example_host (callback l) (envelope throwing_bus (JStr ''x'') (Data 0) None))
         (exact_listeners throwing_bus (JStr ''x'')) = [Throws 1, Returns 8]"
    by code_simp
  have r: "calls_of (the (drive 2 example_host
                       (emit example_host throwing_bus (JStr ''x'') (Data 0) None) 0)) 0
       = [0, 1]"
    by code_simp
  have s: "settled (the (drive 2 example_host
                       (emit example_host throwing_bus (JStr ''x'') (Data 0) None) 0)) 0
       = Some (Resolved [8])"
    by code_simp
  from listener_errors_are_isolated
         [of throwing_bus "JStr ''x''" example_host "Data 0" None] o r s
  show ?thesis by blast
qed

text \<open>
  A wildcard pattern that is not a regular expression: the publish calls the listener of the
  type, is rejected at the test of the pattern, and the wildcard listener registered after
  it is not called.
\<close>

lemma malformed_pattern_rejects_publish:
  "list_all (compiles example_host (JStr ''x''))
     (sets malformed_bus (wildcardListeners malformed_bus)) = False
   \<and> calls_of (the (drive 1 example_host
                       (emit example_host malformed_bus (JStr ''x'') (Data 0) None) 0)) 0
       = [0]
   \<and> settled (the (drive 1 example_host
                       (emit example_host malformed_bus (JStr ''x'') (Data 0) None) 0)) 0
       = Some Rejected"
  by code_simp

subsection \<open>Unsubscribing while an emission is in flight\<close>

lemma same_for_suspend_on:
  assumes "agree e fr b1 b2" and "calls_of b1 e = calls_of b2 e" and "settled b1 e = settled b2 e"
  shows "same_for e (suspend_on h b1 fr l) (suspend_on h b2 fr l)"
  using assms by (auto simp: same_for_def agree_def calls_of_suspend_on)

lemma same_for_Finished:
  assumes "agree e fr b1 b2" and "calls_of b1 e = calls_of b2 e"
  shows "same_for e (finish h (b1, Finished fr)) (finish h (b2, Finished fr))"
proof -
  from assms(1) have e: "ev_id (f_event fr) = e" "e < next_event b1" "e < next_event b2"
    by (simp_all add: agree_def)
  show ?thesis
    using finish_Finished(1,2,3) [OF e(1,2), of h] finish_Finished(1,2,3) [OF e(1,3), of h] assms(2)
    by (simp add: same_for_def)
qed

lemma same_for_Failed:
  assumes "agree e fr b1 b2" and "calls_of b1 e = calls_of b2 e"
  shows "same_for e (finish h (b1, Failed fr)) (finish h (b2, Failed fr))"
  using assms by (auto simp: same_for_def agree_def finish_def reject_def Let_def calls_of_def)

lemma wild_sim:
  assumes "agree e fr b1 b2" and "calls_of b1 e = calls_of b2 e" and "settled b1 e = settled b2 e"
  shows "same_for e (finish h (wild_loop h b1 fr)) (finish h (wild_loop h b2 fr))"
proof -
  from assms(1) have s: "sets b1 = sets b2" by (simp add: agree_def)
  show ?thesis
  proof (cases "next_wildcard h (ev_type (f_event fr))
                  (drop (f_windex fr) (sets b2 (f_wset fr))) (f_windex fr)")
    case (Deliver j w)
    have "agree e (fr\<lparr>f_windex := Suc j\<rparr>) b1 b2" using assms(1) by (simp add: agree_def)
    from same_for_suspend_on [OF this assms(2,3)] Deliver s show ?thesis
      by (simp add: wild_loop_def finish_def)
  next
    case Exhausted
    with s same_for_Finished [OF assms(1,2)] show ?thesis by (simp add: wild_loop_def)
  next
    case Thrown
    with s same_for_Failed [OF assms(1,2)] show ?thesis by (simp add: wild_loop_def)
  qed
qed

lemma agree_remove_once:
  assumes "agree e fr b1 b2"
  shows "agree e fr (remove_once b1 fr' ls) (remove_once b2 fr' ls)"
proof -
  have "arrays (remove_once b fr' ls) a = arrays b a \<and> a < next_addr (remove_once b fr' ls)"
    if "a < next_addr b" for a b
    using remove_once_cases [of b fr' ls] that by auto
  with assms show ?thesis by (simp add: agree_def)
qed

lemma exact_sim:
  assumes "agree e fr b1 b2" and "calls_of b1 e = calls_of b2 e" and "settled b1 e = settled b2 e"
  shows "same_for e (finish h (exact_loop h b1 fr)) (finish h (exact_loop h b2 fr))"
proof -
  from assms(1) have arr: "frame_array b1 fr = frame_array b2 fr"
    by (auto simp: agree_def frame_array_def split: option.splits)
  show ?thesis
  proof (cases "f_index fr < length (frame_array b2 fr)")
    case True
    have "agree e (fr\<lparr>f_index := Suc (f_index fr)\<rparr>) b1 b2"
      using assms(1) by (simp add: agree_def)
    from same_for_suspend_on [OF this assms(2,3)] True arr show ?thesis
      by (simp add: exact_loop_def Let_def finish_def frame_array_def)
  next
    case False
    let ?ls = "frame_array b2 fr"
    let ?c1 = "remove_once b1 fr ?ls" and ?c2 = "remove_once b2 fr ?ls"
    let ?fr = "fr\<lparr>f_phase := Wild, f_wset := wildcardListeners ?c2, f_windex := 0\<rparr>"
    have a: "agree e fr ?c1 ?c2" using assms(1) by (rule agree_remove_once)
    then have a': "agree e ?fr ?c1 ?c2" by (simp add: agree_def)
    have w: "wildcardListeners ?c1 = wildcardListeners ?c2" using assms(1) by (simp add: agree_def)
    have "same_for e (finish h (wild_loop h ?c1 ?fr)) (finish h (wild_loop h ?c2 ?fr))"
      using assms(2,3) by (intro wild_sim [OF a']) simp_all
    with False arr w show ?thesis
      by (simp add: exact_loop_def Let_def frame_array_def)
  qed
qed

lemma agree_frame:
  assumes "agree e fr b1 b2" and "f_event fr' = f_event fr" and "f_listeners fr' = f_listeners fr"
  shows "agree e fr' b1 b2"
  using assms by (simp add: agree_def)

lemma resume_sim:
  assumes "same_for e b1 b2"
  shows "same_for e (resume h b1 e) (resume h b2 e)"
proof (cases "suspended b2 e")
  case None
  with assms show ?thesis by (simp add: resume_def same_for_def)
next
  case (Some s)
  obtain fr l out where s: "s = (fr, l, out)" by (cases s)
  from assms Some s have sus: "suspended b1 e = Some (fr, l, out)"
      and a: "agree e fr b1 b2"
      and c: "calls_of b1 e = calls_of b2 e" and st: "settled b1 e = settled b2 e"
    by (auto simp: same_for_def)
  have "same_for e (finish h (continue_emit h b1 (fr, l, out)))
                   (finish h (continue_emit h b2 (fr, l, out)))"
    by (cases "f_phase fr"; cases out)
       (auto simp: continue_emit_def intro!: exact_sim wild_sim c st agree_frame [OF a])
  with Some s sus show ?thesis by (simp add: resume_def)
qed

lemma drive_sim:
  assumes "same_for e b1 b2"
  shows "rel_option (same_for e) (drive n h b1 e) (drive n h b2 e)"
  using assms
proof (induction n arbitrary: b1 b2)
  case 0
  then show ?case by (auto simp: same_for_def)
next
  case (Suc n)
  show ?case
  proof (cases "suspended b2 e")
    case None
    with Suc.prems show ?thesis by (auto simp: same_for_def)
  next
    case (Some s)
    with Suc.prems have "suspended b1 e = Some s" by (simp add: same_for_def)
    with Some Suc.IH [OF resume_sim [OF Suc.prems]] show ?thesis by simp
  qed
qed


lemma view_kept_refl [simp]: "view_kept e b b"
  by (simp add: view_kept_def)


































section \<open>Properties of the module loader and of the core\<close>

subsection \<open>Order of the events of a load\<close>

lemma store_promises_fields [simp]:
  "trace (store_promises s) = trace s"
  "loadedModules (store_promises s) = loadedModules s"
  "moduleCache (store_promises s) = moduleCache s"
  "vault (store_promises s) = vault s"
  "promises (store_promises s) = promises s"
  "next_promise (store_promises s) = next_promise s"
  "ticks (store_promises s) = ticks s"
  "replies (store_promises s) = replies s"
  "entering (store_promises s) = []"
  "loadingPromises (store_promises s) = loadingPromises s ++ map_of (rev (entering s))"
  by (simp_all add: store_promises_def)

lemma suspend_alone [simp]: "suspend (\<lambda>s. s) s = store_promises s"
  by (simp add: suspend_def)

lemma class_of_cong: "moduleCache s' = moduleCache s \<Longrightarrow> class_of s' = class_of s"
  by (simp add: class_of_def fun_eq_iff)

lemma class_of_fields [simp]:
  "class_of (store_promises s) = class_of s"
  "class_of (s\<lparr>trace := tr\<rparr>) = class_of s"
  "class_of (s\<lparr>loadedModules := lm\<rparr>) = class_of s"
  "class_of (s\<lparr>loadingPromises := lp\<rparr>) = class_of s"
  "class_of (s\<lparr>promises := ps\<rparr>) = class_of s"
  "class_of (s\<lparr>next_promise := np\<rparr>) = class_of s"
  "class_of (s\<lparr>entering := es\<rparr>) = class_of s"
  "class_of (s\<lparr>vault := v\<rparr>) = class_of s"
  "class_of (s\<lparr>ticks := t\<rparr>) = class_of s"
  "class_of (s\<lparr>replies := rs\<rparr>) = class_of s"
  by (simp_all add: class_of_def fun_eq_iff)



























subsection \<open>Cycles\<close>


lemma valid_classes_fields [simp]:
  "valid_classes (store_promises s) = valid_classes s"
  "valid_classes (s\<lparr>trace := tr\<rparr>) = valid_classes s"
  "valid_classes (s\<lparr>entering := es, next_promise := np\<rparr>) = valid_classes s"
  by (simp_all add: valid_classes_def)












subsection \<open>Single flight\<close>








lemma calm_append [simp]: "calm X (tr1 @ tr2) \<longleftrightarrow> calm X tr1 \<and> calm X tr2"
  by (simp add: calm_def)

lemma calm_Nil [simp]: "calm X []"
  by (simp add: calm_def)



lemma entry_of_fields [simp]:
  "entry_of (store_promises s) = entry_of s"
  "entry_of (s\<lparr>trace := tr\<rparr>) = entry_of s"
  "entry_of (s\<lparr>promises := ps\<rparr>) = entry_of s"
  "entry_of (s\<lparr>moduleCache := mc\<rparr>) = entry_of s"
  "entry_of (s\<lparr>vault := v\<rparr>) = entry_of s"
  "entry_of (s\<lparr>replies := rs\<rparr>) = entry_of s"
  "entry_of (s\<lparr>ticks := t\<rparr>) = entry_of s"
  "entry_of (s\<lparr>loadedModules := lm\<rparr>) = entry_of s"
  "entry_of (s\<lparr>next_promise := np\<rparr>) = entry_of s"
  by (simp_all add: entry_of_def)















lemma counts_simps [simp]:
  "instantiations X [] = 0" "registrations X [] = 0"
  "instantiations X (Instantiated n # tr) = (if n = X then 1 else 0) + instantiations X tr"
  "instantiations X (Registering n m # tr) = instantiations X tr"
  "instantiations X (Activated n m # tr) = instantiations X tr"
  "registrations X (Instantiated n # tr) = registrations X tr"
  "registrations X (Registering n m # tr) = (if n = X then 1 else 0) + registrations X tr"
  "registrations X (Activated n m # tr) = registrations X tr"
  by (auto simp: instantiations_def registrations_def)





subsection \<open>Registration with the core\<close>

text \<open>
  Claim C9. When the module fails the validation of its interface, or its \<open>init\<close> throws,
  \<open>registerModule\<close> returns \<open>false\<close> and the core is as before: the module is not stored,
  no API is stored under its name, and nothing is emitted on the event bus.
\<close>

theorem registerModule_failure_changes_nothing:
  assumes "\<not> validateModuleInterface m \<or> m_init m = Method InitThrows"
  shows "registerModule h c name m = (c, False)"
  using assms by (auto simp: registerModule_def)

theorem registerModule_failure_changes_nothing_witness:
  "m_init ((mock_module ''X'')\<lparr>m_init := Method InitThrows\<rparr>) = Method InitThrows
   \<and> registerModule example_host example_core ''X''
         ((mock_module ''X'')\<lparr>m_init := Method InitThrows\<rparr>) = (example_core, False)
   \<and> \<not> validateModuleInterface ((mock_module ''Y'')\<lparr>m_getAPI := Missing\<rparr>)
   \<and> registerModule example_host example_core ''Y''
         ((mock_module ''Y'')\<lparr>m_getAPI := Missing\<rparr>) = (example_core, False)
   \<and> snd (registerModule example_host example_core ''X'' (mock_module ''X'')) = True"
proof -
  have a: "m_init ((mock_module ''X'')\<lparr>m_init := Method InitThrows\<rparr>) = Method InitThrows"
    by simp
  have b: "\<not> validateModuleInterface ((mock_module ''Y'')\<lparr>m_getAPI := Missing\<rparr>)"
    by (simp add: validateModuleInterface_def)
  have c: "snd (registerModule example_host example_core ''X'' (mock_module ''X'')) = True"
    by code_simp
  show ?thesis
    using registerModule_failure_changes_nothing
            [of "(mock_module ''X'')\<lparr>m_init := Method InitThrows\<rparr>" example_host example_core "''X''"]
          registerModule_failure_changes_nothing
            [of "(mock_module ''Y'')\<lparr>m_getAPI := Missing\<rparr>" example_host example_core "''Y''"]
          a b c
    by simp
qed

end
